theory Spec2Isabelle
  imports Complex_Main
begin

section \<open>Round-Robin scheduler: the simulation engine of \<open>RoundRobinScheduler.tsx\<close>\<close>

text \<open>
  The engine consists of the two pure functions \<open>roundRobin\<close> and \<open>fcfsScheduler\<close> and of
  the quantum sweep computed in \<open>AnalyzeView\<close>. Process fields and quanta reach the engine as
  integers (the user interface reads them with \<open>parseInt\<close>). JavaScript numbers are doubles;
  \<open>roundRobin\<close> and \<open>fcfsScheduler\<close> are modelled on exact integers (\<open>int\<close>), which is what
  the code computes as long as its numbers stay among the integers of magnitude up to
  \<open>2^53\<close>. The timeline is modelled a second time with the rounding of doubles
  (\<open>rr_gantt_d\<close>, \<open>fcfs_gantt_d\<close>), and both are proved to agree on the inputs that keep the
  clock in that range. The two averages are quotients and are modelled by \<open>jsnum\<close>: an
  exact rational, the two infinities, or NaN; the rounding of quotients is not modelled.
\<close>

subsection \<open>Data model\<close>

text \<open>\<open>type Proc = { id: number; at: number; bt: number }\<close>\<close>

record Proc =
  id_p :: int
  at_p :: int
  bt :: int

text \<open>A row of \<open>resultData\<close>: \<open>Proc & { ct; tat; wt; rt }\<close>.\<close>

record ProcResult = Proc +
  ct :: int
  tat :: int
  wt :: int
  rt :: int

text \<open>An entry of \<open>gantt\<close>: \<open>{ pid: string; start: number; end: number }\<close>.\<close>

record Segment =
  pid :: string
  start :: int
  end_g :: int

datatype jsnum = Fin rat | PosInf | NegInf | NaN

record RRResult =
  resultData :: "ProcResult list"
  gantt :: "Segment list"
  cs :: nat
  avgTat :: jsnum
  avgWt :: jsnum
  cpuUtil :: string
  throughput :: string
  totalTime :: int

text \<open>\<open>DEFAULT_PROCESSES\<close>\<close>

definition DEFAULT_PROCESSES :: "Proc list" where
  "DEFAULT_PROCESSES =
     [\<lparr>id_p = 1, at_p = 0, bt = 5\<rparr>,
      \<lparr>id_p = 2, at_p = 1, bt = 3\<rparr>,
      \<lparr>id_p = 3, at_p = 2, bt = 8\<rparr>,
      \<lparr>id_p = 4, at_p = 3, bt = 6\<rparr>]"

subsection \<open>JavaScript primitives used by the engine\<close>

text \<open>Decimal rendering of a non-negative integer.\<close>

fun dec_nat :: "nat \<Rightarrow> string" where
  "dec_nat n =
     (if n < 10 then [''0123456789'' ! n]
      else dec_nat (n div 10) @ [''0123456789'' ! (n mod 10)])"

declare dec_nat.simps [simp del]

text \<open>
  The string a template literal produces for an integer-valued number of magnitude below
  \<open>10^21\<close> (from there on the code prints the exponent form).
\<close>

definition js_string_of_int :: "int \<Rightarrow> string" where
  "js_string_of_int k = (if k < 0 then ''-'' @ dec_nat (nat (- k)) else dec_nat (nat k))"

text \<open>The quotient \<open>a / b\<close> of two integer-valued numbers.\<close>

definition js_div :: "int \<Rightarrow> int \<Rightarrow> jsnum" where
  "js_div a b =
     (if b = 0 then (if a = 0 then NaN else if 0 < a then PosInf else NegInf)
      else Fin (rat_of_int a / rat_of_int b))"

text \<open>The comparison \<open>x < y\<close> of two numbers: false as soon as one of them is NaN.\<close>

fun js_less :: "jsnum \<Rightarrow> jsnum \<Rightarrow> bool" where
  "js_less NaN _ = False"
| "js_less _ NaN = False"
| "js_less (Fin a) (Fin b) = (a < b)"
| "js_less (Fin _) PosInf = True"
| "js_less (Fin _) NegInf = False"
| "js_less PosInf _ = False"
| "js_less NegInf NegInf = False"
| "js_less NegInf _ = True"

text \<open>
  \<open>x.toFixed(f)\<close> of a finite number below \<open>10^21\<close> in magnitude: the sign, then the
  integer \<open>n\<close> closest to \<open>|x| * 10^f\<close> (the larger one on a tie), written with at least
  \<open>f + 1\<close> digits and a point before the last \<open>f\<close>. It is applied to the exact quotient,
  not to its nearest double, so the last digit differs from the code's where the double
  lies on the other side of a rounding boundary.
\<close>

definition toFixed :: "rat \<Rightarrow> nat \<Rightarrow> string" where
  "toFixed x f =
     (let n = nat \<lfloor>\<bar>x\<bar> * 10 ^ f + 1 / 2\<rfloor>;
          m = dec_nat n;
          m' = replicate (Suc f - length m) (CHR ''0'') @ m;
          k = length m' - f
      in (if x < 0 then ''-'' else '''') @
         (if f = 0 then m' else take k m' @ ''.'' @ drop k m'))"

text \<open>A stable sort with the comparator \<open>(a, b) => key(a) - key(b)\<close> on integer keys.\<close>

definition js_sort_by :: "('a \<Rightarrow> int) \<Rightarrow> 'a list \<Rightarrow> 'a list" where
  "js_sort_by key xs = sort_key key xs"

subsection \<open>\<open>roundRobin\<close>\<close>

text \<open>The local variables of \<open>roundRobin\<close> that the loops update.\<close>

record rr_state =
  time :: int
  queue :: "nat list"
  remaining :: "int list"
  completion :: "int list"
  firstResponse :: "int list"
  visited :: "bool list"
  gantt_s :: "Segment list"

text \<open>Lines 51-56: the processes that have arrived at the start time enter the queue.\<close>

definition enqueue_initial :: "Proc list \<Rightarrow> int \<Rightarrow> nat list \<times> bool list \<Rightarrow> nat list \<times> bool list" where
  "enqueue_initial sortedP t =
     fold (\<lambda>i (qu, vis).
             if at_p (sortedP ! i) \<le> t \<and> \<not> vis ! i then (qu @ [i], vis[i := True])
             else (qu, vis))
          [0..<length sortedP]"

text \<open>Lines 68-73: the scan for arrivals after a slice.\<close>

definition enqueue_arrived ::
  "Proc list \<Rightarrow> int \<Rightarrow> int list \<Rightarrow> nat list \<times> bool list \<Rightarrow> nat list \<times> bool list" where
  "enqueue_arrived sortedP t remn =
     fold (\<lambda>j (qu, vis).
             if at_p (sortedP ! j) \<le> t \<and> \<not> vis ! j \<and> 0 < remn ! j then (qu @ [j], vis[j := True])
             else (qu, vis))
          [0..<length sortedP]"

text \<open>
  Lines 59-75: the head of the queue runs for one slice, the arrivals are scanned, and the
  process that ran is queued again or completes. Entered with a non-empty queue.
\<close>

definition rr_slice :: "Proc list \<Rightarrow> int \<Rightarrow> rr_state \<Rightarrow> rr_state" where
  "rr_slice sortedP q s =
     (let i = hd (queue s);
          queue1 = tl (queue s);
          firstResponse1 =
            (if firstResponse s ! i = - 1
             then (firstResponse s)[i := time s - at_p (sortedP ! i)]
             else firstResponse s);
          runTime = min (remaining s ! i) q;
          start' = time s;
          end' = time s + runTime;
          gantt1 = gantt_s s @
            [\<lparr>pid = ''P'' @ js_string_of_int (id_p (sortedP ! i)), start = start', end_g = end'\<rparr>];
          time1 = end';
          remaining1 = (remaining s)[i := remaining s ! i - runTime];
          (queue2, visited2) = enqueue_arrived sortedP time1 remaining1 (queue1, visited s);
          queue3 = (if 0 < remaining1 ! i then queue2 @ [i] else queue2);
          completion1 = (if 0 < remaining1 ! i then completion s else (completion s)[i := time1])
      in \<lparr>time = time1, queue = queue3, remaining = remaining1, completion = completion1,
          firstResponse = firstResponse1, visited = visited2, gantt_s = gantt1\<rparr>)"

text \<open>
  Lines 77-86: with an empty queue, the clock jumps to the first unfinished process that
  was never queued (the \<open>for\<close> loop ends at its first hit).
\<close>

definition fill_gap :: "Proc list \<Rightarrow> rr_state \<Rightarrow> rr_state" where
  "fill_gap sortedP s =
     (if queue s = [] then
        (case find (\<lambda>k. 0 < remaining s ! k \<and> \<not> visited s ! k) [0..<length sortedP] of
           None \<Rightarrow> s
         | Some k \<Rightarrow> s\<lparr>time := max (time s) (at_p (sortedP ! k)),
                        queue := queue s @ [k],
                        visited := (visited s)[k := True]\<rparr>)
      else s)"

text \<open>Lines 59-86: one iteration of the \<open>while\<close> loop.\<close>

definition rr_step :: "Proc list \<Rightarrow> int \<Rightarrow> rr_state \<Rightarrow> rr_state" where
  "rr_step sortedP q s = fill_gap sortedP (rr_slice sortedP q s)"

text \<open>Line 58: the \<open>while\<close> loop. A run that never leaves the loop has the value \<open>None\<close>.\<close>

partial_function (option) rr_loop :: "Proc list \<Rightarrow> int \<Rightarrow> rr_state \<Rightarrow> rr_state option" where
  "rr_loop sortedP q s = (if queue s = [] then Some s else rr_loop sortedP q (rr_step sortedP q s))"

declare rr_loop.simps [code]

text \<open>Lines 41-56: the state in which the loop is entered.\<close>

definition rr_init :: "Proc list \<Rightarrow> rr_state" where
  "rr_init sortedP =
     (let n = length sortedP;
          time0 = (case sortedP of [] \<Rightarrow> 0 | p # _ \<Rightarrow> at_p p);
          (queue0, visited0) = enqueue_initial sortedP time0 ([], replicate n False)
      in \<lparr>time = time0, queue = queue0, remaining = map bt sortedP,
          completion = replicate n 0, firstResponse = replicate n (- 1),
          visited = visited0, gantt_s = []\<rparr>)"

text \<open>The state in which the loop is left, for the input \<open>procs\<close> and the quantum \<open>q\<close>.\<close>

definition rr_run :: "Proc list \<Rightarrow> int \<Rightarrow> rr_state option" where
  "rr_run procs q = (let sortedP = js_sort_by at_p procs in rr_loop sortedP q (rr_init sortedP))"

text \<open>
  The number of context switches:
  \<open>gantt.reduce((acc, _, idx) => (idx > 0 && gantt[idx].pid !== gantt[idx - 1].pid ? acc + 1 : acc), 0)\<close>.
\<close>

definition count_cs :: "Segment list \<Rightarrow> nat" where
  "count_cs g =
     fold (\<lambda>idx acc. if 0 < idx \<and> pid (g ! idx) \<noteq> pid (g ! (idx - 1)) then acc + 1 else acc)
          [0..<length g] 0"

text \<open>\<open>gantt[gantt.length - 1]?.end || 0\<close>\<close>

definition total_time :: "Segment list \<Rightarrow> int" where
  "total_time g = (if g = [] then 0 else end_g (last g))"

text \<open>\<open>totalTime ? ((totalBurst / totalTime) * 100).toFixed(2) : '0.00'\<close>\<close>

definition cpu_util :: "int \<Rightarrow> int \<Rightarrow> string" where
  "cpu_util totalBurst tt =
     (if tt \<noteq> 0 then toFixed (rat_of_int totalBurst / rat_of_int tt * 100) 2 else ''0.00'')"

text \<open>\<open>totalTime ? (n / totalTime).toFixed(3) : '0.000'\<close>\<close>

definition throughput_of :: "nat \<Rightarrow> int \<Rightarrow> string" where
  "throughput_of n tt =
     (if tt \<noteq> 0 then toFixed (rat_of_int (int n) / rat_of_int tt) 3 else ''0.000'')"

text \<open>Line 89: \<open>completion.map((c, i) => c - sortedP[i].at)\<close>\<close>

definition rr_tats :: "Proc list \<Rightarrow> int list \<Rightarrow> int list" where
  "rr_tats sortedP completion' = map (\<lambda>i. completion' ! i - at_p (sortedP ! i)) [0..<length sortedP]"

text \<open>Line 90: \<open>tat.map((t, i) => t - sortedP[i].bt)\<close>\<close>

definition rr_wts :: "Proc list \<Rightarrow> int list \<Rightarrow> int list" where
  "rr_wts sortedP tats = map (\<lambda>i. tats ! i - bt (sortedP ! i)) [0..<length sortedP]"

text \<open>Lines 93-94: the rows \<open>{ ...p, ct, tat, wt, rt }\<close>, before they are sorted by id.\<close>

definition rr_rows :: "Proc list \<Rightarrow> int list \<Rightarrow> int list \<Rightarrow> int list \<Rightarrow> int list \<Rightarrow> ProcResult list" where
  "rr_rows sortedP completion' tats wts rts =
     map (\<lambda>i. Proc.extend (sortedP ! i)
            (ProcResult.fields (completion' ! i) (tats ! i) (wts ! i) (rts ! i)))
         [0..<length sortedP]"

text \<open>Lines 97-105: the summary figures and the result record.\<close>

definition rr_summary ::
  "Proc list \<Rightarrow> Segment list \<Rightarrow> int list \<Rightarrow> int list \<Rightarrow> ProcResult list \<Rightarrow> RRResult" where
  "rr_summary sortedP g tats wts rows =
     (let n = length sortedP;
          totalBurst = fold (\<lambda>p a. a + bt p) sortedP 0;
          tt = total_time g
      in \<lparr>resultData = rows, gantt = g, cs = count_cs g,
          avgTat = js_div (fold (\<lambda>b a. a + b) tats 0) (int n),
          avgWt = js_div (fold (\<lambda>b a. a + b) wts 0) (int n),
          cpuUtil = cpu_util totalBurst tt,
          throughput = throughput_of n tt,
          totalTime = tt\<rparr>)"

text \<open>Lines 89-105: the result record computed from the final state.\<close>

definition rr_result :: "Proc list \<Rightarrow> rr_state \<Rightarrow> RRResult" where
  "rr_result sortedP s =
     (let tats = rr_tats sortedP (completion s);
          wts = rr_wts sortedP tats;
          rts = firstResponse s;
          rows = js_sort_by id_p (rr_rows sortedP (completion s) tats wts rts)
      in rr_summary sortedP (gantt_s s) tats wts rows)"

definition roundRobin :: "Proc list \<Rightarrow> int \<Rightarrow> RRResult option" where
  "roundRobin procs q =
     (let sortedP = js_sort_by at_p procs
      in map_option (rr_result sortedP) (rr_loop sortedP q (rr_init sortedP)))"

subsection \<open>\<open>fcfsScheduler\<close>\<close>

text \<open>Lines 112-117: the \<open>forEach\<close> over the sorted processes, on the pair of clock and timeline.\<close>

definition fcfs_visit :: "Proc \<Rightarrow> int \<times> Segment list \<Rightarrow> int \<times> Segment list" where
  "fcfs_visit p = (\<lambda>(t, g).
     (let t1 = (if t < at_p p then at_p p else t)
      in (t1 + bt p,
          g @ [\<lparr>pid = ''P'' @ js_string_of_int (id_p p), start = t1, end_g = t1 + bt p\<rparr>])))"

definition fcfs_gantt :: "Proc list \<Rightarrow> Segment list" where
  "fcfs_gantt sortedP = snd (fold fcfs_visit sortedP (0, []))"

text \<open>Lines 118-124: the rows, before they are sorted by id.\<close>

definition fcfs_rows :: "Proc list \<Rightarrow> Segment list \<Rightarrow> ProcResult list" where
  "fcfs_rows sortedP g =
     map (\<lambda>i. let p = sortedP ! i;
                  ct' = end_g (g ! i);
                  tat' = ct' - at_p p;
                  wt' = tat' - bt p
              in Proc.extend p (ProcResult.fields ct' tat' wt' wt'))
         [0..<length sortedP]"

text \<open>Lines 126-133: the result record.\<close>

definition fcfs_result :: "Proc list \<Rightarrow> nat \<Rightarrow> Segment list \<Rightarrow> ProcResult list \<Rightarrow> RRResult" where
  "fcfs_result procs n g rows =
     (let totalBurst = fold (\<lambda>p a. a + bt p) procs 0;
          tt = total_time g
      in \<lparr>resultData = rows, gantt = g, cs = count_cs g,
          avgTat = js_div (fold (\<lambda>p a. a + tat p) rows 0) (int n),
          avgWt = js_div (fold (\<lambda>p a. a + wt p) rows 0) (int n),
          cpuUtil = cpu_util totalBurst tt,
          throughput = throughput_of n tt,
          totalTime = tt\<rparr>)"

definition fcfsScheduler :: "Proc list \<Rightarrow> RRResult" where
  "fcfsScheduler procs =
     (let sortedP = js_sort_by at_p procs;
          n = length sortedP;
          g = fcfs_gantt sortedP;
          rows = js_sort_by id_p (fcfs_rows sortedP g)
      in fcfs_result procs n g rows)"

subsection \<open>The quantum sweep of \<open>AnalyzeView\<close>\<close>

text \<open>A sweep point: \<open>{ q, awt: r.avgWt, atat: r.avgTat, cs: r.cs }\<close>.\<close>

record SweepPoint =
  q_s :: int
  awt :: jsnum
  atat :: jsnum
  cs_s :: nat

text \<open>
  \<open>Math.max(...processes.map(p => p.bt))\<close>: without arguments \<open>Math.max\<close> is
  \<open>-Infinity\<close>, here \<open>None\<close>.
\<close>

definition maxBt :: "Proc list \<Rightarrow> int option" where
  "maxBt processes =
     (case map bt processes of [] \<Rightarrow> None | b # bs \<Rightarrow> Some (fold max bs b))"

text \<open>\<open>Math.max(2, maxBt + 3)\<close>, which is 2 for \<open>-Infinity\<close>.\<close>

definition maxQ :: "Proc list \<Rightarrow> int" where
  "maxQ processes = (case maxBt processes of None \<Rightarrow> 2 | Some m \<Rightarrow> max 2 (m + 3))"

text \<open>\<open>Array.from({ length: maxQ - 1 }, (_, i) => i + 1)\<close>\<close>

definition qValues :: "Proc list \<Rightarrow> int list" where
  "qValues processes = map (\<lambda>i. int i + 1) [0..<nat (maxQ processes - 1)]"

text \<open>Lines 372-375: one run of \<open>roundRobin\<close> for each quantum; \<open>None\<close> if a run does not return.\<close>

fun sweep :: "Proc list \<Rightarrow> int list \<Rightarrow> SweepPoint list option" where
  "sweep processes [] = Some []"
| "sweep processes (q # qs) =
     (case roundRobin processes q of
        None \<Rightarrow> None
      | Some r \<Rightarrow>
          (case sweep processes qs of
             None \<Rightarrow> None
           | Some ps \<Rightarrow> Some (\<lparr>q_s = q, awt = avgWt r, atat = avgTat r, cs_s = cs r\<rparr> # ps)))"

definition points :: "Proc list \<Rightarrow> SweepPoint list option" where
  "points processes = sweep processes (qValues processes)"

text \<open>
  Line 376: \<open>points.reduce((m, p) => (p.awt < m.awt ? p : m), points[0])\<close>; \<open>points[0]\<close>
  of an empty array is \<open>undefined\<close>, here \<open>None\<close>.
\<close>

definition minAwtPoint :: "SweepPoint list \<Rightarrow> SweepPoint option" where
  "minAwtPoint pts =
     (case pts of
        [] \<Rightarrow> None
      | p0 # _ \<Rightarrow> Some (fold (\<lambda>p m. if js_less (awt p) (awt m) then p else m) pts p0))"

subsection \<open>The clock on doubles\<close>

text \<open>
  JavaScript numbers are IEEE doubles. Every integer of magnitude up to \<open>2^53\<close> is a
  double, and the sum or difference of two doubles is the exact result rounded to the
  nearest double, to the one with the even significand on a tie. The functions above compute
  with exact integers. The timeline is computed here once more with the rounding, on
  integer-valued doubles of finite magnitude (the code has \<open>Infinity\<close> beyond the largest
  double, this model has not).
\<close>













subsection \<open>The two functions on a store\<close>

text \<open>
  JavaScript arrays and objects are reached through references, and \<open>sort\<close>, \<open>push\<close>,
  \<open>shift\<close> and indexed assignment update them in place. To follow which array or object an
  update hits, the functions are modelled once more on a store: a list of cells, a
  reference being the position of its cell. The caller owns the array of the processes
  and the \<open>Proc\<close> objects it refers to. A new array or object gets the next free position.
\<close>

type_synonym addr = nat

datatype cell =
    ProcObj Proc
  | RefArr "addr list"
  | NumArr "int list"
  | IdxArr "nat list"
  | BoolArr "bool list"
  | SegArr "Segment list"
  | RowArr "ProcResult list"

type_synonym store = "cell list"

definition alloc :: "cell \<Rightarrow> store \<Rightarrow> addr \<times> store" where
  "alloc c h = (length h, h @ [c])"

definition put :: "addr \<Rightarrow> cell \<Rightarrow> store \<Rightarrow> store" where
  "put a c h = h[a := c]"

fun proc_of :: "cell \<Rightarrow> Proc" where
  "proc_of (ProcObj p) = p"
| "proc_of _ = \<lparr>id_p = 0, at_p = 0, bt = 0\<rparr>"

fun refs_of :: "cell \<Rightarrow> addr list" where
  "refs_of (RefArr rs) = rs"
| "refs_of _ = []"

fun nums_of :: "cell \<Rightarrow> int list" where
  "nums_of (NumArr xs) = xs"
| "nums_of _ = []"

fun idxs_of :: "cell \<Rightarrow> nat list" where
  "idxs_of (IdxArr xs) = xs"
| "idxs_of _ = []"

fun bools_of :: "cell \<Rightarrow> bool list" where
  "bools_of (BoolArr xs) = xs"
| "bools_of _ = []"

fun segs_of :: "cell \<Rightarrow> Segment list" where
  "segs_of (SegArr xs) = xs"
| "segs_of _ = []"

fun rows_of :: "cell \<Rightarrow> ProcResult list" where
  "rows_of (RowArr xs) = xs"
| "rows_of _ = []"

text \<open>The \<open>Proc\<close> objects that the array at \<open>a\<close> refers to, in the order of the array.\<close>

definition procs_at :: "store \<Rightarrow> addr \<Rightarrow> Proc list" where
  "procs_at h a = map (\<lambda>r. proc_of (h ! r)) (refs_of (h ! a))"

text \<open>
  \<open>[...procs].sort((a, b) => a.at - b.at)\<close>: the spread makes a new array holding the same
  references, and \<open>sort\<close> reorders that new array in place.
\<close>

definition h_sorted_copy :: "addr \<Rightarrow> store \<Rightarrow> addr \<times> store" where
  "h_sorted_copy procs h =
     (let (sorted_a, h1) = alloc (RefArr (refs_of (h ! procs))) h
      in (sorted_a,
          put sorted_a
            (RefArr (js_sort_by (\<lambda>r. at_p (proc_of (h1 ! r))) (refs_of (h1 ! sorted_a)))) h1))"

text \<open>The references that the local variables of \<open>roundRobin\<close> hold.\<close>

record frame =
  sorted_a :: addr
  remaining_a :: addr
  completion_a :: addr
  firstResponse_a :: addr
  queue_a :: addr
  visited_a :: addr
  gantt_a :: addr

text \<open>The local variables as values: the working arrays read from the store, and the clock.\<close>

definition load :: "frame \<Rightarrow> store \<Rightarrow> int \<Rightarrow> rr_state" where
  "load fr h t =
     \<lparr>time = t, queue = idxs_of (h ! queue_a fr), remaining = nums_of (h ! remaining_a fr),
      completion = nums_of (h ! completion_a fr), firstResponse = nums_of (h ! firstResponse_a fr),
      visited = bools_of (h ! visited_a fr), gantt_s = segs_of (h ! gantt_a fr)\<rparr>"

text \<open>The working arrays written back, each at its own reference.\<close>

definition save :: "frame \<Rightarrow> rr_state \<Rightarrow> store \<Rightarrow> store" where
  "save fr s h =
     put (gantt_a fr) (SegArr (gantt_s s))
       (put (visited_a fr) (BoolArr (visited s))
         (put (firstResponse_a fr) (NumArr (firstResponse s))
           (put (completion_a fr) (NumArr (completion s))
             (put (remaining_a fr) (NumArr (remaining s))
               (put (queue_a fr) (IdxArr (queue s)) h)))))"

text \<open>
  Lines 59-86 on the store. Every assignment of the loop body has one of the six working
  arrays as its target (\<open>queue.shift()\<close>, \<open>firstResponse[i] = ...\<close>, \<open>gantt.push(...)\<close>,
  \<open>remaining[i] -= ...\<close>, \<open>queue.push(...)\<close>, \<open>visited[j] = true\<close>,
  \<open>completion[i] = time\<close>) or the local \<open>time\<close>; \<open>sorted\<close> and the \<open>Proc\<close> objects are
  only read.
\<close>

definition h_step :: "frame \<Rightarrow> int \<Rightarrow> store \<times> int \<Rightarrow> store \<times> int" where
  "h_step fr q = (\<lambda>(h, t).
     (let s' = rr_step (procs_at h (sorted_a fr)) q (load fr h t)
      in (save fr s' h, time s')))"

partial_function (option) h_loop :: "frame \<Rightarrow> int \<Rightarrow> store \<times> int \<Rightarrow> (store \<times> int) option" where
  "h_loop fr q ht =
     (if idxs_of (fst ht ! queue_a fr) = [] then Some ht else h_loop fr q (h_step fr q ht))"

declare h_loop.simps [code]

text \<open>Lines 41-56 on the store: the copy, the fresh working arrays, and the first scan.\<close>

definition h_init :: "addr \<Rightarrow> store \<Rightarrow> frame \<times> store \<times> int" where
  "h_init procs h =
     (let (sorted', h1) = h_sorted_copy procs h;
          srt = procs_at h1 sorted';
          n = length srt;
          (remaining', h2) = alloc (NumArr (map bt srt)) h1;
          (completion', h3) = alloc (NumArr (replicate n 0)) h2;
          (firstResponse', h4) = alloc (NumArr (replicate n (- 1))) h3;
          time0 = (case srt of [] \<Rightarrow> 0 | p # _ \<Rightarrow> at_p p);
          (queue', h5) = alloc (IdxArr []) h4;
          (visited', h6) = alloc (BoolArr (replicate n False)) h5;
          (gantt', h7) = alloc (SegArr []) h6;
          (queue0, visited0) = enqueue_initial srt time0 (idxs_of (h7 ! queue'), bools_of (h7 ! visited'));
          h8 = put visited' (BoolArr visited0) (put queue' (IdxArr queue0) h7)
      in (\<lparr>sorted_a = sorted', remaining_a = remaining', completion_a = completion',
           firstResponse_a = firstResponse', queue_a = queue', visited_a = visited',
           gantt_a = gantt'\<rparr>, h8, time0))"

text \<open>
  Lines 89-105 on the store: \<open>tat\<close>, \<open>wt\<close> and \<open>resultData\<close> are new arrays, the rows are
  new objects (\<open>{ ...p, ct, tat, wt, rt }\<close> copies the fields of \<open>p\<close>), and the second
  \<open>sort\<close> reorders the new array \<open>resultData\<close> in place.
\<close>

definition h_result :: "frame \<Rightarrow> store \<Rightarrow> RRResult \<times> store" where
  "h_result fr h =
     (let srt = procs_at h (sorted_a fr);
          (tat', h1) = alloc (NumArr (rr_tats srt (nums_of (h ! completion_a fr)))) h;
          (wt', h2) = alloc (NumArr (rr_wts srt (nums_of (h1 ! tat')))) h1;
          (resultData', h3) =
            alloc (RowArr (rr_rows srt (nums_of (h2 ! completion_a fr)) (nums_of (h2 ! tat'))
                     (nums_of (h2 ! wt')) (nums_of (h2 ! firstResponse_a fr)))) h2;
          h4 = put resultData' (RowArr (js_sort_by id_p (rows_of (h3 ! resultData')))) h3
      in (rr_summary srt (segs_of (h4 ! gantt_a fr)) (nums_of (h4 ! tat')) (nums_of (h4 ! wt'))
            (rows_of (h4 ! resultData')),
          h4))"

definition h_roundRobin :: "addr \<Rightarrow> int \<Rightarrow> store \<Rightarrow> (RRResult \<times> store) option" where
  "h_roundRobin procs q h =
     (let (fr, h1, time0) = h_init procs h
      in case h_loop fr q (h1, time0) of
           None \<Rightarrow> None
         | Some (h2, t) \<Rightarrow> Some (h_result fr h2))"

text \<open>
  \<open>fcfsScheduler\<close> on the store: the sorted copy, the new array \<open>gantt\<close> that the
  \<open>forEach\<close> pushes to (\<open>h_fcfs_visit\<close> is its callback, lines 114-116), and the new
  array \<open>resultData\<close> of new rows, sorted in place.
\<close>

definition h_fcfs_visit :: "addr \<Rightarrow> Proc \<Rightarrow> int \<times> store \<Rightarrow> int \<times> store" where
  "h_fcfs_visit gantt' p = (\<lambda>(t, h).
     (let (t', g) = fcfs_visit p (t, segs_of (h ! gantt'))
      in (t', put gantt' (SegArr g) h)))"

definition h_fcfsScheduler :: "addr \<Rightarrow> store \<Rightarrow> RRResult \<times> store" where
  "h_fcfsScheduler procs h =
     (let (sorted', h1) = h_sorted_copy procs h;
          n = length (refs_of (h1 ! sorted'));
          (gantt', h2) = alloc (SegArr []) h1;
          (t, h3) = fold (h_fcfs_visit gantt') (procs_at h2 sorted') (0, h2);
          (resultData', h4) =
            alloc (RowArr (fcfs_rows (procs_at h3 sorted') (segs_of (h3 ! gantt')))) h3;
          h5 = put resultData' (RowArr (js_sort_by id_p (rows_of (h4 ! resultData')))) h4
      in (fcfs_result (procs_at h5 procs) n (segs_of (h5 ! gantt')) (rows_of (h5 ! resultData')),
          h5))"

text \<open>A store in which the caller has built the processes and then the array of them.\<close>

definition DEFAULT_STORE :: store where
  "DEFAULT_STORE = map ProcObj DEFAULT_PROCESSES @ [RefArr [0, 1, 2, 3]]"

text \<open>The references that \<open>roundRobin\<close> obtains when it is entered with \<open>b\<close> cells in the store.\<close>

definition frame_at :: "nat \<Rightarrow> frame" where
  "frame_at b =
     \<lparr>sorted_a = b, remaining_a = b + 1, completion_a = b + 2, firstResponse_a = b + 3,
      queue_a = b + 4, visited_a = b + 5, gantt_a = b + 6\<rparr>"

text \<open>
  A store as the caller hands it over: the array of the processes is in it, and so is every
  cell it refers to.
\<close>

definition caller_store :: "store \<Rightarrow> addr \<Rightarrow> bool" where
  "caller_store h procs \<longleftrightarrow> procs < length h \<and> (\<forall>r\<in>set (refs_of (h ! procs)). r < length h)"

text \<open>The working arrays are in the store, and the sorted copy refers to cells of the caller.\<close>

definition frame_ok :: "nat \<Rightarrow> store \<Rightarrow> bool" where
  "frame_ok b h \<longleftrightarrow> b + 7 \<le> length h \<and> (\<forall>r\<in>set (refs_of (h ! b)). r < b)"

section \<open>Predicates and inputs used in the proofs\<close>


text \<open>
  What holds of the local variables whenever the loop condition is tested: the two arrays
  have the length of the process list, the queue holds no index twice, every queued index
  is a visited process with work left, no remaining time is negative, and every visited
  process with work left is queued.
\<close>

definition rr_inv :: "Proc list \<Rightarrow> rr_state \<Rightarrow> bool" where
  "rr_inv srt s \<longleftrightarrow>
     length (remaining s) = length srt \<and> length (visited s) = length srt \<and>
     distinct (queue s) \<and>
     (\<forall>j\<in>set (queue s). j < length srt \<and> visited s ! j \<and> 0 < remaining s ! j) \<and>
     (\<forall>j<length srt. 0 \<le> remaining s ! j) \<and>
     (\<forall>j<length srt. visited s ! j \<and> 0 < remaining s ! j \<longrightarrow> j \<in> set (queue s))"

text \<open>With an empty queue, no unfinished process is left that was never queued.\<close>

definition rr_done :: "Proc list \<Rightarrow> rr_state \<Rightarrow> bool" where
  "rr_done srt s \<longleftrightarrow> (queue s = [] \<longrightarrow> (\<forall>j<length srt. visited s ! j \<or> remaining s ! j \<le> 0))"





text \<open>The states in which the loop condition is tested during a run.\<close>

inductive rr_reach :: "Proc list \<Rightarrow> int \<Rightarrow> rr_state \<Rightarrow> bool" for srt :: "Proc list" and q :: int where
  reach_init: "rr_reach srt q (rr_init srt)"
| reach_step: "rr_reach srt q s \<Longrightarrow> queue s \<noteq> [] \<Longrightarrow> rr_reach srt q (rr_step srt q s)"

text \<open>
  The arrays have the length of the process list, every queued index is a visited process,
  and a process never queued still has its whole burst to run.
\<close>

definition rr_untouched :: "Proc list \<Rightarrow> rr_state \<Rightarrow> bool" where
  "rr_untouched srt s \<longleftrightarrow>
     length (remaining s) = length srt \<and> length (visited s) = length srt \<and>
     (\<forall>j\<in>set (queue s). j < length srt \<and> visited s ! j) \<and>
     (\<forall>j<length srt. \<not> visited s ! j \<longrightarrow> remaining s ! j = bt (srt ! j))"

text \<open>A process list in which the ids do not follow the arrival times.\<close>

definition LATE_ID_PROCESSES :: "Proc list" where
  "LATE_ID_PROCESSES =
     [\<lparr>id_p = 1, at_p = 0, bt = 5\<rparr>,
      \<lparr>id_p = 2, at_p = 2, bt = 2\<rparr>,
      \<lparr>id_p = 3, at_p = 1, bt = 2\<rparr>]"

text \<open>The ids of the queued processes, from the head of the queue to its tail.\<close>

definition queue_ids :: "Proc list \<Rightarrow> rr_state \<Rightarrow> int list" where
  "queue_ids srt s = map (\<lambda>j. id_p (srt ! j)) (queue s)"

text \<open>The value of a finite number.\<close>

fun fin_val :: "jsnum \<Rightarrow> rat" where
  "fin_val (Fin a) = a"
| "fin_val _ = 0"

text \<open>A state from which a quantum below 1 never empties the queue.\<close>

definition rr_stuck :: "Proc list \<Rightarrow> rr_state \<Rightarrow> bool" where
  "rr_stuck srt s \<longleftrightarrow>
     length (remaining s) = length srt \<and> length (visited s) = length srt \<and> queue s \<noteq> [] \<and>
     (\<forall>j\<in>set (queue s). j < length srt \<and> 0 < remaining s ! j)"





section \<open>The scans for arrivals\<close>

lemma fold_enqueue:
  assumes "distinct js" "\<forall>j\<in>set js. j < length vis"
  shows "fold (\<lambda>j (qu, vis). if C j \<and> \<not> vis ! j then (qu @ [j], vis[j := True]) else (qu, vis)) js (qu, vis)
         = (qu @ filter (\<lambda>j. C j \<and> \<not> vis ! j) js,
            map (\<lambda>k. vis ! k \<or> (k \<in> set js \<and> C k)) [0..<length vis])"
  using assms
proof (induction js arbitrary: qu vis)
  case Nil
  then show ?case by (simp add: map_nth)
next
  case (Cons j js)
  let ?f = "\<lambda>j (qu, vis). if C j \<and> \<not> vis ! j then (qu @ [j], vis[j := True]) else (qu, vis)"
  show ?case
  proof (cases "C j \<and> \<not> vis ! j")
    case True
    have jl: "j < length vis" and jn: "j \<notin> set js" using Cons.prems by auto
    have "fold ?f (j # js) (qu, vis) = fold ?f js (qu @ [j], vis[j := True])"
      using True by simp
    also have "\<dots> = ((qu @ [j]) @ filter (\<lambda>k. C k \<and> \<not> vis[j := True] ! k) js,
            map (\<lambda>k. vis[j := True] ! k \<or> (k \<in> set js \<and> C k)) [0..<length (vis[j := True])])"
      using Cons.prems by (intro Cons.IH) auto
    also have "filter (\<lambda>k. C k \<and> \<not> vis[j := True] ! k) js = filter (\<lambda>k. C k \<and> \<not> vis ! k) js"
    proof (rule filter_cong [OF refl])
      fix k assume "k \<in> set js"
      with jn have "k \<noteq> j" by auto
      then show "(C k \<and> \<not> vis[j := True] ! k) = (C k \<and> \<not> vis ! k)" by simp
    qed
    also have "map (\<lambda>k. vis[j := True] ! k \<or> (k \<in> set js \<and> C k)) [0..<length (vis[j := True])]
              = map (\<lambda>k. vis ! k \<or> (k \<in> set (j # js) \<and> C k)) [0..<length vis]"
      using True jl by (auto simp: nth_list_update)
    finally show ?thesis using True by simp
  next
    case False
    have "fold ?f (j # js) (qu, vis) = fold ?f js (qu, vis)"
      using False by auto
    also have "\<dots> = (qu @ filter (\<lambda>k. C k \<and> \<not> vis ! k) js,
            map (\<lambda>k. vis ! k \<or> (k \<in> set js \<and> C k)) [0..<length vis])"
      using Cons.prems by (intro Cons.IH) auto
    also have "map (\<lambda>k. vis ! k \<or> (k \<in> set js \<and> C k)) [0..<length vis]
       = map (\<lambda>k. vis ! k \<or> (k \<in> set (j # js) \<and> C k)) [0..<length vis]"
      using False by auto
    finally show ?thesis using False by auto
  qed
qed

lemma enqueue_arrived_eq:
  assumes "length vis = length srt"
  shows "enqueue_arrived srt t rm (qu, vis) =
     (qu @ filter (\<lambda>j. at_p (srt ! j) \<le> t \<and> \<not> vis ! j \<and> 0 < rm ! j) [0..<length srt],
      map (\<lambda>k. vis ! k \<or> (at_p (srt ! k) \<le> t \<and> 0 < rm ! k)) [0..<length srt])"
proof -
  have "enqueue_arrived srt t rm (qu, vis) =
     fold (\<lambda>j (qu, vis). if (at_p (srt ! j) \<le> t \<and> 0 < rm ! j) \<and> \<not> vis ! j then (qu @ [j], vis[j := True]) else (qu, vis))
       [0..<length srt] (qu, vis)"
    unfolding enqueue_arrived_def by (rule arg_cong [where f = "\<lambda>f. fold f _ _"]) (auto simp: fun_eq_iff)
  also have "\<dots> = (qu @ filter (\<lambda>j. (at_p (srt ! j) \<le> t \<and> 0 < rm ! j) \<and> \<not> vis ! j) [0..<length srt],
      map (\<lambda>k. vis ! k \<or> (k \<in> set [0..<length srt] \<and> (at_p (srt ! k) \<le> t \<and> 0 < rm ! k))) [0..<length vis])"
    using assms by (intro fold_enqueue) auto
  also have "\<dots> = (qu @ filter (\<lambda>j. at_p (srt ! j) \<le> t \<and> \<not> vis ! j \<and> 0 < rm ! j) [0..<length srt],
      map (\<lambda>k. vis ! k \<or> (at_p (srt ! k) \<le> t \<and> 0 < rm ! k)) [0..<length srt])"
    using assms by (auto intro: filter_cong)
  finally show ?thesis .
qed

lemma enqueue_initial_eq:
  assumes "length vis = length srt"
  shows "enqueue_initial srt t (qu, vis) =
     (qu @ filter (\<lambda>j. at_p (srt ! j) \<le> t \<and> \<not> vis ! j) [0..<length srt],
      map (\<lambda>k. vis ! k \<or> at_p (srt ! k) \<le> t) [0..<length srt])"
proof -
  have "enqueue_initial srt t (qu, vis) =
     (qu @ filter (\<lambda>j. at_p (srt ! j) \<le> t \<and> \<not> vis ! j) [0..<length srt],
      map (\<lambda>k. vis ! k \<or> (k \<in> set [0..<length srt] \<and> at_p (srt ! k) \<le> t)) [0..<length vis])"
    unfolding enqueue_initial_def using assms by (intro fold_enqueue) auto
  also have "\<dots> = (qu @ filter (\<lambda>j. at_p (srt ! j) \<le> t \<and> \<not> vis ! j) [0..<length srt],
      map (\<lambda>k. vis ! k \<or> at_p (srt ! k) \<le> t) [0..<length srt])"
    using assms by auto
  finally show ?thesis .
qed

section \<open>One iteration of the loop\<close>


lemma rr_slice_remaining:
  "remaining (rr_slice srt q s) =
     (remaining s)[hd (queue s) := remaining s ! hd (queue s) - min (remaining s ! hd (queue s)) q]"
  by (simp add: rr_slice_def Let_def split: prod.splits)


lemma rr_slice_queue:
  assumes "length (visited s) = length srt"
  shows "queue (rr_slice srt q s) =
     tl (queue s) @
     filter (\<lambda>j. at_p (srt ! j) \<le> time (rr_slice srt q s) \<and> \<not> visited s ! j
                \<and> 0 < remaining (rr_slice srt q s) ! j) [0..<length srt] @
     (if 0 < remaining (rr_slice srt q s) ! hd (queue s) then [hd (queue s)] else [])"
  by (simp add: rr_slice_def Let_def enqueue_arrived_eq [OF assms])

lemma rr_slice_visited:
  assumes "length (visited s) = length srt"
  shows "visited (rr_slice srt q s) =
     map (\<lambda>k. visited s ! k \<or> (at_p (srt ! k) \<le> time (rr_slice srt q s)
                \<and> 0 < remaining (rr_slice srt q s) ! k)) [0..<length srt]"
  by (simp add: rr_slice_def Let_def enqueue_arrived_eq [OF assms])

lemma fill_gap_remaining: "remaining (fill_gap srt s) = remaining s"
  by (simp add: fill_gap_def split: option.splits)



lemma rr_slice_inv:
  assumes inv: "rr_inv srt s" and ne: "queue s \<noteq> []"
  shows "rr_inv srt (rr_slice srt q s)"
proof -
  define i where "i = hd (queue s)"
  define s' where "s' = rr_slice srt q s"
  have lv: "length (visited s) = length srt" and lr: "length (remaining s) = length srt"
    using inv by (simp_all add: rr_inv_def)
  have inv_in: "j < length srt \<Longrightarrow> visited s ! j \<Longrightarrow> 0 < remaining s ! j \<Longrightarrow> j \<in> set (queue s)" for j
    using inv by (simp add: rr_inv_def)
  have qs: "queue s = i # tl (queue s)" using ne by (simp add: i_def)
  have i_in: "i \<in> set (queue s)" using ne by (simp add: i_def)
  have i_lt: "i < length srt" and i_vis: "visited s ! i" and i_pos: "0 < remaining s ! i"
    using inv i_in by (auto simp: rr_inv_def)
  have i_notin: "i \<notin> set (tl (queue s))"
    using inv qs by (metis distinct.simps(2) rr_inv_def)
  have dtl: "distinct (tl (queue s))" using inv by (simp add: rr_inv_def distinct_tl)
  have rem': "remaining s' = (remaining s)[i := remaining s ! i - min (remaining s ! i) q]"
    by (simp add: s'_def i_def rr_slice_remaining)
  have rem_i: "0 \<le> remaining s' ! i" using i_lt lr by (simp add: rem')
  have rem_other: "j \<noteq> i \<Longrightarrow> remaining s' ! j = remaining s ! j" for j
    by (simp add: rem')
  have vis': "k < length srt \<Longrightarrow> visited s' ! k =
      (visited s ! k \<or> (at_p (srt ! k) \<le> time s' \<and> 0 < remaining s' ! k))" for k
    by (simp add: s'_def rr_slice_visited [OF lv])
  have q': "queue s' = tl (queue s) @
     filter (\<lambda>j. at_p (srt ! j) \<le> time s' \<and> \<not> visited s ! j \<and> 0 < remaining s' ! j) [0..<length srt] @
     (if 0 < remaining s' ! i then [i] else [])"
    unfolding s'_def i_def by (rule rr_slice_queue [OF lv])
  have tl_props: "j \<in> set (tl (queue s)) \<Longrightarrow> j < length srt \<and> visited s ! j \<and> 0 < remaining s ! j \<and> j \<noteq> i" for j
    using inv i_notin by (metis list.set_sel(2) ne rr_inv_def)
  have 1: "length (remaining s') = length srt" by (simp add: rem' lr)
  have 2: "length (visited s') = length srt" by (simp add: s'_def rr_slice_visited [OF lv])
  have 3: "distinct (queue s')"
    unfolding q' using dtl i_notin i_vis tl_props by auto
  have 4: "\<forall>j\<in>set (queue s'). j < length srt \<and> visited s' ! j \<and> 0 < remaining s' ! j"
  proof
    fix j assume "j \<in> set (queue s')"
    then consider "j \<in> set (tl (queue s))"
      | "j < length srt" "at_p (srt ! j) \<le> time s'" "\<not> visited s ! j" "0 < remaining s' ! j"
      | "j = i" "0 < remaining s' ! i"
      unfolding q' by (auto split: if_splits)
    then show "j < length srt \<and> visited s' ! j \<and> 0 < remaining s' ! j"
    proof cases
      case 1
      then show ?thesis using tl_props [OF 1] rem_other [of j] vis' [of j] by simp
    next
      case 2
      then show ?thesis using vis' [of j] by simp
    next
      case 3
      then show ?thesis using i_lt i_vis vis' [of i] by simp
    qed
  qed
  have 5: "\<forall>j<length srt. 0 \<le> remaining s' ! j"
  proof (intro allI impI)
    fix j assume "j < length srt"
    then show "0 \<le> remaining s' ! j"
      using inv rem_i rem_other [of j] by (cases "j = i") (auto simp: rr_inv_def)
  qed
  have 6: "\<forall>j<length srt. visited s' ! j \<and> 0 < remaining s' ! j \<longrightarrow> j \<in> set (queue s')"
  proof (intro allI impI)
    fix j assume jl: "j < length srt" and h: "visited s' ! j \<and> 0 < remaining s' ! j"
    show "j \<in> set (queue s')"
    proof (cases "j = i")
      case True
      then show ?thesis using h unfolding q' by simp
    next
      case False
      show ?thesis
      proof (cases "visited s ! j")
        case True
        have "0 < remaining s ! j" using h rem_other [OF False] by simp
        then have "j \<in> set (queue s)" using inv_in [OF jl True] by simp
        then have "j \<in> set (i # tl (queue s))" using qs by simp
        then have "j \<in> set (tl (queue s))" using False by simp
        then show ?thesis unfolding q' by simp
      next
        case nv: False
        then have "at_p (srt ! j) \<le> time s'" using h vis' [OF jl] by simp
        then show ?thesis unfolding q' using nv h jl by simp
      qed
    qed
  qed
  show ?thesis
    unfolding rr_inv_def s'_def [symmetric] using 1 2 3 4 5 6 by blast
qed

lemma fill_gap_inv:
  assumes inv: "rr_inv srt s"
  shows "rr_inv srt (fill_gap srt s) \<and> rr_done srt (fill_gap srt s)"
proof (cases "queue s = []")
  case False
  then show ?thesis using inv by (simp add: fill_gap_def rr_done_def)
next
  case True
  show ?thesis
  proof (cases "find (\<lambda>k. 0 < remaining s ! k \<and> \<not> visited s ! k) [0..<length srt]")
    case None
    then have "\<forall>j<length srt. \<not> (0 < remaining s ! j \<and> \<not> visited s ! j)"
      by (simp add: find_None_iff)
    then have "rr_done srt s" unfolding rr_done_def by (meson not_le_imp_less)
    then show ?thesis using inv True None by (simp add: fill_gap_def)
  next
    case (Some k)
    then have k: "k < length srt" "0 < remaining s ! k" "\<not> visited s ! k"
      by (auto simp: find_Some_iff)
    have eq: "fill_gap srt s = s\<lparr>time := max (time s) (at_p (srt ! k)),
                        queue := [k], visited := (visited s)[k := True]\<rparr>"
      using True Some by (simp add: fill_gap_def)
    have "rr_inv srt (fill_gap srt s)"
      unfolding eq rr_inv_def using inv k True
      by (auto simp: rr_inv_def nth_list_update)
    moreover have "rr_done srt (fill_gap srt s)"
      unfolding eq rr_done_def by simp
    ultimately show ?thesis by simp
  qed
qed

lemma rr_step_inv:
  assumes "rr_inv srt s" "queue s \<noteq> []"
  shows "rr_inv srt (rr_step srt q s) \<and> rr_done srt (rr_step srt q s)"
  unfolding rr_step_def using fill_gap_inv [OF rr_slice_inv [OF assms]] .

section \<open>Termination of the loop\<close>

lemma sum_list_update_int:
  fixes xs :: "int list"
  assumes "i < length xs"
  shows "sum_list (xs[i := v]) = sum_list xs - xs ! i + v"
  using assms
proof (induction xs arbitrary: i)
  case Nil
  then show ?case by simp
next
  case (Cons x xs)
  then show ?case by (cases i) simp_all
qed

lemma sum_list_nonneg_nth:
  fixes xs :: "int list"
  assumes "\<forall>j<length xs. 0 \<le> xs ! j"
  shows "0 \<le> sum_list xs"
  using assms by (intro sum_list_nonneg) (auto simp: in_set_conv_nth)

lemma rr_loop_total:
  assumes init: "I s"
    and step: "\<And>s. I s \<Longrightarrow> queue s \<noteq> [] \<Longrightarrow>
                 I (rr_step srt q s) \<and> sum_list (remaining (rr_step srt q s)) < sum_list (remaining s)"
    and nonneg: "\<And>s. I s \<Longrightarrow> 0 \<le> sum_list (remaining s)"
  shows "\<exists>s'. rr_loop srt q s = Some s' \<and> I s' \<and> queue s' = []"
  using init
proof (induction "nat (sum_list (remaining s))" arbitrary: s rule: less_induct)
  case less
  show ?case
  proof (cases "queue s = []")
    case True
    then show ?thesis using less.prems by (simp add: rr_loop.simps)
  next
    case False
    have st: "I (rr_step srt q s)" "sum_list (remaining (rr_step srt q s)) < sum_list (remaining s)"
      using step [OF less.prems False] by simp_all
    have "nat (sum_list (remaining (rr_step srt q s))) < nat (sum_list (remaining s))"
      using st(2) nonneg [OF st(1)] by simp
    from less.hyps [OF this st(1)]
    obtain s' where "rr_loop srt q (rr_step srt q s) = Some s'" "I s'" "queue s' = []" by blast
    then show ?thesis using False by (subst rr_loop.simps) simp
  qed
qed

lemma rr_step_decreases:
  assumes inv: "rr_inv srt s" and ne: "queue s \<noteq> []" and q: "1 \<le> q"
  shows "sum_list (remaining (rr_step srt q s)) < sum_list (remaining s)"
proof -
  have "hd (queue s) \<in> set (queue s)" using ne by simp
  then have i: "hd (queue s) < length (remaining s)" "0 < remaining s ! hd (queue s)"
    using inv by (auto simp: rr_inv_def)
  have "0 < min (remaining s ! hd (queue s)) q" using i(2) q by simp
  then show ?thesis
    by (simp add: rr_step_def fill_gap_remaining rr_slice_remaining sum_list_update_int [OF i(1)])
qed

lemma rr_inv_sum_nonneg: "rr_inv srt s \<Longrightarrow> 0 \<le> sum_list (remaining s)"
  by (rule sum_list_nonneg_nth) (simp add: rr_inv_def)

lemma enqueue_initial_fresh:
  "enqueue_initial srt t ([], replicate (length srt) False) =
     (filter (\<lambda>j. at_p (srt ! j) \<le> t) [0..<length srt],
      map (\<lambda>k. at_p (srt ! k) \<le> t) [0..<length srt])"
proof -
  have "filter (\<lambda>j. at_p (srt ! j) \<le> t \<and> \<not> replicate (length srt) False ! j) [0..<length srt]
        = filter (\<lambda>j. at_p (srt ! j) \<le> t) [0..<length srt]"
    by (rule filter_cong) simp_all
  moreover have "map (\<lambda>k. replicate (length srt) False ! k \<or> at_p (srt ! k) \<le> t) [0..<length srt]
        = map (\<lambda>k. at_p (srt ! k) \<le> t) [0..<length srt]"
    by (rule map_cong) simp_all
  ultimately show ?thesis by (simp add: enqueue_initial_eq)
qed

lemma rr_init_fields:
  "time (rr_init srt) = (case srt of [] \<Rightarrow> 0 | p # _ \<Rightarrow> at_p p)"
  "remaining (rr_init srt) = map bt srt"
  "gantt_s (rr_init srt) = []"
  "queue (rr_init srt) = filter (\<lambda>j. at_p (srt ! j) \<le> time (rr_init srt)) [0..<length srt]"
  "visited (rr_init srt) = map (\<lambda>k. at_p (srt ! k) \<le> time (rr_init srt)) [0..<length srt]"
  by (simp_all add: rr_init_def Let_def enqueue_initial_fresh)

lemma rr_init_inv:
  assumes "\<forall>p\<in>set srt. 0 < bt p"
  shows "rr_inv srt (rr_init srt)"
proof -
  have pos: "0 < bt (srt ! j)" if "j < length srt" for j
    using assms that by simp
  then have nonneg: "0 \<le> bt (srt ! j)" if "j < length srt" for j
    using that by (simp add: less_imp_le)
  show ?thesis
    unfolding rr_inv_def using pos nonneg by (auto simp: rr_init_fields)
qed

lemma rr_init_done: "rr_done srt (rr_init srt)"
proof (cases srt)
  case Nil
  then show ?thesis by (simp add: rr_done_def)
next
  case (Cons p ps)
  then have "0 \<in> set (queue (rr_init srt))"
    by (simp add: rr_init_fields)
  then show ?thesis unfolding rr_done_def by auto
qed

lemma rr_loop_inv:
  assumes "rr_inv srt s" "rr_done srt s" "1 \<le> q"
  shows "\<exists>s'. rr_loop srt q s = Some s' \<and> (rr_inv srt s' \<and> rr_done srt s') \<and> queue s' = []"
proof (rule rr_loop_total [where I = "\<lambda>s. rr_inv srt s \<and> rr_done srt s"])
  show "rr_inv srt s \<and> rr_done srt s" using assms by simp
next
  fix s assume "rr_inv srt s \<and> rr_done srt s" "queue s \<noteq> []"
  then show "(rr_inv srt (rr_step srt q s) \<and> rr_done srt (rr_step srt q s)) \<and>
         sum_list (remaining (rr_step srt q s)) < sum_list (remaining s)"
    using rr_step_inv rr_step_decreases assms(3) by blast
next
  fix s assume "rr_inv srt s \<and> rr_done srt s"
  then show "0 \<le> sum_list (remaining s)" using rr_inv_sum_nonneg by blast
qed

lemma rr_inv_queued:
  assumes "rr_inv srt s" "j < length srt" "visited s ! j" "0 < remaining s ! j"
  shows "j \<in> set (queue s)"
  using assms unfolding rr_inv_def by blast

lemma rr_final_remaining:
  assumes "rr_inv srt s" "rr_done srt s" "queue s = []"
  shows "\<forall>r\<in>set (remaining s). r = 0"
proof
  fix r assume "r \<in> set (remaining s)"
  then obtain j where j: "j < length srt" "r = remaining s ! j"
    using assms(1) by (auto simp: rr_inv_def in_set_conv_nth)
  have "0 \<le> remaining s ! j" using assms(1) j(1) by (simp add: rr_inv_def)
  moreover have "\<not> 0 < remaining s ! j"
  proof
    assume pos: "0 < remaining s ! j"
    then have "visited s ! j" using assms(2,3) j(1) by (auto simp: rr_done_def)
    from rr_inv_queued [OF assms(1) j(1) this pos]
    show False using assms(3) by simp
  qed
  ultimately show "r = 0" using j(2) by simp
qed

lemma js_sort_by_props:
  "length (js_sort_by f xs) = length xs" "set (js_sort_by f xs) = set xs"
  by (simp_all add: js_sort_by_def)

text \<open>
  C5. For every non-empty process list with positive burst times and every quantum of at
  least 1, \<open>roundRobin\<close> returns, and the loop is left with an empty queue and with the
  remaining time of every process equal to 0.
\<close>

theorem rr_terminates_all_completed:
  assumes "procs \<noteq> []" and "\<forall>p\<in>set procs. 0 < bt p" and "1 \<le> q"
  shows "(\<exists>r. roundRobin procs q = Some r) \<and>
         (\<exists>s. rr_run procs q = Some s \<and> queue s = [] \<and>
              length (remaining s) = length procs \<and> (\<forall>r\<in>set (remaining s). r = 0))"
proof -
  define srt where "srt = js_sort_by at_p procs"
  have "\<forall>p\<in>set srt. 0 < bt p" using assms(2) by (simp add: srt_def js_sort_by_props)
  then have "rr_inv srt (rr_init srt)" by (rule rr_init_inv)
  from rr_loop_inv [OF this rr_init_done assms(3)]
  obtain s where s: "rr_loop srt q (rr_init srt) = Some s" "rr_inv srt s" "rr_done srt s" "queue s = []"
    by blast
  have run: "rr_run procs q = Some s" using s(1) by (simp add: rr_run_def srt_def)
  have "length (remaining s) = length procs" using s(2) by (simp add: rr_inv_def srt_def js_sort_by_props)
  moreover have "\<forall>r\<in>set (remaining s). r = 0" by (rule rr_final_remaining [OF s(2,3,4)])
  moreover have "roundRobin procs q = Some (rr_result srt s)"
    using s(1) by (simp add: roundRobin_def srt_def)
  ultimately show ?thesis using run s(4) by blast
qed

theorem rr_terminates_all_completed_witness:
  "(\<exists>r. roundRobin DEFAULT_PROCESSES 4 = Some r) \<and>
   (\<exists>s. rr_run DEFAULT_PROCESSES 4 = Some s \<and> queue s = [] \<and>
        length (remaining s) = length DEFAULT_PROCESSES \<and> (\<forall>r\<in>set (remaining s). r = 0))"
proof -
  have "DEFAULT_PROCESSES \<noteq> []" and "\<forall>p\<in>set DEFAULT_PROCESSES. 0 < bt p" and "(1::int) \<le> 4"
    by (simp_all add: DEFAULT_PROCESSES_def)
  then show ?thesis by (rule rr_terminates_all_completed)
qed

section \<open>Runs on concrete inputs\<close>

lemma roundRobin_rr_run:
  "roundRobin procs q = map_option (rr_result (js_sort_by at_p procs)) (rr_run procs q)"
  by (simp add: roundRobin_def rr_run_def Let_def)

lemma gantt_rr_result: "gantt (rr_result srt s) = gantt_s s"
  by (simp add: rr_result_def rr_summary_def Let_def)

lemma totalTime_rr_result: "totalTime (rr_result srt s) = total_time (gantt_s s)"
  by (simp add: rr_result_def rr_summary_def Let_def)

lemma rr_run_default:
  "rr_run DEFAULT_PROCESSES 4 = Some
     \<lparr>time = 22, queue = [], remaining = [0, 0, 0, 0],
      completion = [16, 7, 20, 22], firstResponse = [0, 3, 5, 8],
      visited = [True, True, True, True],
      gantt_s =
       [\<lparr>pid = ''P1'', start = 0, end_g = 4\<rparr>,
       \<lparr>pid = ''P2'', start = 4, end_g = 7\<rparr>,
       \<lparr>pid = ''P3'', start = 7, end_g = 11\<rparr>,
       \<lparr>pid = ''P4'', start = 11, end_g = 15\<rparr>,
       \<lparr>pid = ''P1'', start = 15, end_g = 16\<rparr>,
       \<lparr>pid = ''P3'', start = 16, end_g = 20\<rparr>,
       \<lparr>pid = ''P4'', start = 20, end_g = 22\<rparr>]\<rparr>"
  by code_simp

text \<open>
  C1, as the code runs it. For \<open>DEFAULT_PROCESSES\<close> and quantum 4 the timeline is
  P1[0,4), P2[4,7), P3[7,11), P4[11,15), P1[15,16), P3[16,20), P4[20,22) and \<open>totalTime\<close>
  is 22: P3 has used its 8 units after its second slice, so there is no slice P3[22,24).
\<close>

theorem rr_default_trace:
  "map_option gantt (roundRobin DEFAULT_PROCESSES 4) = Some
     [\<lparr>pid = ''P1'', start = 0, end_g = 4\<rparr>,
      \<lparr>pid = ''P2'', start = 4, end_g = 7\<rparr>,
      \<lparr>pid = ''P3'', start = 7, end_g = 11\<rparr>,
      \<lparr>pid = ''P4'', start = 11, end_g = 15\<rparr>,
      \<lparr>pid = ''P1'', start = 15, end_g = 16\<rparr>,
      \<lparr>pid = ''P3'', start = 16, end_g = 20\<rparr>,
      \<lparr>pid = ''P4'', start = 20, end_g = 22\<rparr>]
   \<and> map_option totalTime (roundRobin DEFAULT_PROCESSES 4) = Some 22"
  by (simp add: roundRobin_rr_run rr_run_default gantt_rr_result totalTime_rr_result total_time_def)

text \<open>
  C1, as the specification states it, does not hold: the run does not produce the eight
  segments ending with P3[22,24) together with \<open>totalTime = 24\<close>.
\<close>

theorem rr_default_trace_counterexample:
  "\<not> (map_option gantt (roundRobin DEFAULT_PROCESSES 4) = Some
     [\<lparr>pid = ''P1'', start = 0, end_g = 4\<rparr>,
      \<lparr>pid = ''P2'', start = 4, end_g = 7\<rparr>,
      \<lparr>pid = ''P3'', start = 7, end_g = 11\<rparr>,
      \<lparr>pid = ''P4'', start = 11, end_g = 15\<rparr>,
      \<lparr>pid = ''P1'', start = 15, end_g = 16\<rparr>,
      \<lparr>pid = ''P3'', start = 16, end_g = 20\<rparr>,
      \<lparr>pid = ''P4'', start = 20, end_g = 22\<rparr>,
      \<lparr>pid = ''P3'', start = 22, end_g = 24\<rparr>]
   \<and> map_option totalTime (roundRobin DEFAULT_PROCESSES 4) = Some 24)"
  by (simp add: roundRobin_rr_run rr_run_default gantt_rr_result totalTime_rr_result total_time_def)

lemma rr_run_Nil: "rr_run [] q = Some (rr_init [])"
  by (simp add: rr_run_def js_sort_by_def rr_init_def enqueue_initial_def rr_loop.simps)

lemma roundRobin_Nil:
  "roundRobin [] q = Some \<lparr>resultData = [], gantt = [], cs = 0, avgTat = NaN, avgWt = NaN,
     cpuUtil = ''0.00'', throughput = ''0.000'', totalTime = 0\<rparr>"
  by (simp add: roundRobin_def js_sort_by_def rr_init_def enqueue_initial_def rr_loop.simps
      rr_result_def rr_summary_def rr_tats_def rr_wts_def rr_rows_def count_cs_def total_time_def cpu_util_def
      throughput_of_def js_div_def)

lemma fcfsScheduler_Nil:
  "fcfsScheduler [] = \<lparr>resultData = [], gantt = [], cs = 0, avgTat = NaN, avgWt = NaN,
     cpuUtil = ''0.00'', throughput = ''0.000'', totalTime = 0\<rparr>"
  by (simp add: fcfsScheduler_def fcfs_result_def fcfs_rows_def js_sort_by_def fcfs_gantt_def
      count_cs_def total_time_def cpu_util_def throughput_of_def js_div_def)

text \<open>
  C10. On the empty process list \<open>roundRobin\<close> (for every quantum) and \<open>fcfsScheduler\<close>
  return normally: empty timeline, no context switch, \<open>totalTime\<close> 0, \<open>cpuUtil\<close> "0.00",
  \<open>throughput\<close> "0.000", no per-process row, and both averages NaN.
\<close>

theorem empty_list_result:
  "roundRobin [] q = Some \<lparr>resultData = [], gantt = [], cs = 0, avgTat = NaN, avgWt = NaN,
     cpuUtil = ''0.00'', throughput = ''0.000'', totalTime = 0\<rparr> \<and>
   fcfsScheduler [] = \<lparr>resultData = [], gantt = [], cs = 0, avgTat = NaN, avgWt = NaN,
     cpuUtil = ''0.00'', throughput = ''0.000'', totalTime = 0\<rparr>"
  using roundRobin_Nil fcfsScheduler_Nil by simp

section \<open>Conservation of the burst times\<close>












section \<open>Chronological timelines\<close>








section \<open>The clock on doubles agrees with the exact clock on safe inputs\<close>






















section \<open>The order of the queue\<close>

lemma rr_untouched_init: "rr_untouched srt (rr_init srt)"
  unfolding rr_untouched_def by (auto simp: rr_init_fields)

lemma rr_slice_untouched:
  assumes u: "rr_untouched srt s" and ne: "queue s \<noteq> []"
  shows "rr_untouched srt (rr_slice srt q s)"
proof -
  define i where "i = hd (queue s)"
  define s' where "s' = rr_slice srt q s"
  have lv: "length (visited s) = length srt" and lr: "length (remaining s) = length srt"
    using u by (simp_all add: rr_untouched_def)
  have qv: "j \<in> set (queue s) \<Longrightarrow> j < length srt \<and> visited s ! j" for j
    using u unfolding rr_untouched_def by blast
  have fresh: "j < length srt \<Longrightarrow> \<not> visited s ! j \<Longrightarrow> remaining s ! j = bt (srt ! j)" for j
    using u unfolding rr_untouched_def by blast
  have i: "i < length srt" "visited s ! i" using qv [of i] ne by (simp_all add: i_def)
  have rem': "remaining s' = (remaining s)[i := remaining s ! i - min (remaining s ! i) q]"
    by (simp add: s'_def i_def rr_slice_remaining)
  have vis': "k < length srt \<Longrightarrow> visited s' ! k =
      (visited s ! k \<or> (at_p (srt ! k) \<le> time s' \<and> 0 < remaining s' ! k))" for k
    by (simp add: s'_def rr_slice_visited [OF lv])
  have q': "queue s' = tl (queue s) @
     filter (\<lambda>j. at_p (srt ! j) \<le> time s' \<and> \<not> visited s ! j \<and> 0 < remaining s' ! j) [0..<length srt] @
     (if 0 < remaining s' ! i then [i] else [])"
    unfolding s'_def i_def by (rule rr_slice_queue [OF lv])
  have 1: "length (remaining s') = length srt" by (simp add: rem' lr)
  have 2: "length (visited s') = length srt" by (simp add: s'_def rr_slice_visited [OF lv])
  have 3: "\<forall>j\<in>set (queue s'). j < length srt \<and> visited s' ! j"
  proof
    fix j assume "j \<in> set (queue s')"
    then consider "j \<in> set (tl (queue s))"
      | "j < length srt" "at_p (srt ! j) \<le> time s'" "0 < remaining s' ! j"
      | "j = i"
      unfolding q' by (auto split: if_splits)
    then show "j < length srt \<and> visited s' ! j"
    proof cases
      case 1
      then have "j \<in> set (queue s)" using ne by (simp add: list.set_sel(2))
      then show ?thesis using qv [of j] vis' [of j] by simp
    next
      case 2
      then show ?thesis using vis' [of j] by simp
    next
      case 3
      then show ?thesis using i vis' [of i] by simp
    qed
  qed
  have 4: "\<forall>j<length srt. \<not> visited s' ! j \<longrightarrow> remaining s' ! j = bt (srt ! j)"
  proof (intro allI impI)
    fix j assume j: "j < length srt" "\<not> visited s' ! j"
    then have nv: "\<not> visited s ! j" using vis' [of j] by simp
    then have "j \<noteq> i" using i(2) by auto
    then have "remaining s' ! j = remaining s ! j" by (simp add: rem')
    then show "remaining s' ! j = bt (srt ! j)" using fresh [OF j(1) nv] by simp
  qed
  show ?thesis unfolding rr_untouched_def s'_def [symmetric] using 1 2 3 4 by blast
qed

lemma fill_gap_untouched:
  assumes u: "rr_untouched srt s"
  shows "rr_untouched srt (fill_gap srt s)"
proof (cases "queue s = []")
  case False
  then show ?thesis using u by (simp add: fill_gap_def)
next
  case True
  show ?thesis
  proof (cases "find (\<lambda>k. 0 < remaining s ! k \<and> \<not> visited s ! k) [0..<length srt]")
    case None
    then show ?thesis using u True by (simp add: fill_gap_def)
  next
    case (Some k)
    then have k: "k < length srt" by (auto simp: find_Some_iff)
    have eq: "fill_gap srt s = s\<lparr>time := max (time s) (at_p (srt ! k)),
                        queue := [k], visited := (visited s)[k := True]\<rparr>"
      using True Some by (simp add: fill_gap_def)
    show ?thesis
      unfolding eq rr_untouched_def using u k
      by (auto simp: rr_untouched_def nth_list_update)
  qed
qed

lemma rr_reach_untouched:
  assumes "rr_reach srt q s"
  shows "rr_untouched srt s"
  using assms
proof (induction rule: rr_reach.induct)
  case reach_init
  show ?case by (rule rr_untouched_init)
next
  case (reach_step s)
  then show ?case
    unfolding rr_step_def by (intro fill_gap_untouched rr_slice_untouched)
qed

lemma map_at_p_nth: "map (\<lambda>j. at_p (xs ! j)) [0..<length xs] = map at_p xs"
proof -
  have "map (\<lambda>j. at_p (xs ! j)) [0..<length xs] = map at_p (map ((!) xs) [0..<length xs])"
    by simp
  also have "\<dots> = map at_p xs" by (simp only: map_nth)
  finally show ?thesis .
qed

lemma sorted_arrivals_filter:
  "sorted (map (\<lambda>j. at_p (js_sort_by at_p procs ! j)) (filter P [0..<length (js_sort_by at_p procs)]))"
proof -
  have "sorted (map at_p (js_sort_by at_p procs))"
    by (simp add: js_sort_by_def)
  then have "sorted (map (\<lambda>j. at_p (js_sort_by at_p procs ! j)) [0..<length (js_sort_by at_p procs)])"
    by (simp only: map_at_p_nth)
  then show ?thesis by (rule sorted_filter)
qed

text \<open>
  C4, as the code runs it. In every run over processes with positive bursts, the slice of
  the head of the queue is followed by the scan that enqueues every process not yet visited
  whose arrival time is at most the new clock value. The scan goes through the list sorted
  by arrival time, so these processes enter the queue in ascending position in that list
  (ascending arrival time, ties in input order), whatever their ids are; they are marked
  visited; and all of them stand before the process that just ran, which is appended last
  if it has time remaining.
\<close>

theorem arrivals_enqueued_before_requeue:
  assumes pos: "\<forall>p\<in>set procs. 0 < bt p"
    and reach: "rr_reach (js_sort_by at_p procs) q s"
    and ne: "queue s \<noteq> []"
  shows "\<exists>newly.
           newly = filter (\<lambda>j. at_p (js_sort_by at_p procs ! j) \<le> time (rr_slice (js_sort_by at_p procs) q s)
                              \<and> \<not> visited s ! j) [0..<length procs] \<and>
           queue (rr_slice (js_sort_by at_p procs) q s) =
             tl (queue s) @ newly @
             (if 0 < remaining (rr_slice (js_sort_by at_p procs) q s) ! hd (queue s)
              then [hd (queue s)] else []) \<and>
           sorted newly \<and> distinct newly \<and>
           sorted (map (\<lambda>j. at_p (js_sort_by at_p procs ! j)) newly) \<and>
           (\<forall>j<length procs. visited (rr_slice (js_sort_by at_p procs) q s) ! j
                                  = (visited s ! j \<or> j \<in> set newly))"
proof -
  define srt where "srt = js_sort_by at_p procs"
  define s' where "s' = rr_slice srt q s"
  define newly where "newly = filter (\<lambda>j. at_p (srt ! j) \<le> time s' \<and> \<not> visited s ! j) [0..<length srt]"
  have len: "length srt = length procs" by (simp add: srt_def js_sort_by_props)
  have u: "rr_untouched srt s" using reach unfolding srt_def by (rule rr_reach_untouched)
  have lv: "length (visited s) = length srt" using u by (simp add: rr_untouched_def)
  have qv: "j \<in> set (queue s) \<Longrightarrow> j < length srt \<and> visited s ! j" for j
    using u unfolding rr_untouched_def by blast
  have fresh: "j < length srt \<Longrightarrow> \<not> visited s ! j \<Longrightarrow> remaining s ! j = bt (srt ! j)" for j
    using u unfolding rr_untouched_def by blast
  have hv: "visited s ! hd (queue s)" using qv [of "hd (queue s)"] ne by simp
  have btpos: "0 < bt (srt ! j)" if "j < length srt" for j
  proof -
    have "srt ! j \<in> set srt" using that by simp
    then have "srt ! j \<in> set procs" by (simp add: srt_def js_sort_by_props)
    then show ?thesis using pos by simp
  qed
  have keep: "0 < remaining s' ! j" if "j < length srt" "\<not> visited s ! j" for j
  proof -
    have "j \<noteq> hd (queue s)" using hv that(2) by auto
    then have "remaining s' ! j = remaining s ! j" by (simp add: s'_def rr_slice_remaining)
    then show ?thesis using fresh [OF that] btpos [OF that(1)] by simp
  qed
  have same: "filter (\<lambda>j. at_p (srt ! j) \<le> time s' \<and> \<not> visited s ! j \<and> 0 < remaining s' ! j) [0..<length srt]
              = newly"
    unfolding newly_def by (rule filter_cong) (auto simp: keep)
  have 1: "queue s' = tl (queue s) @ newly @ (if 0 < remaining s' ! hd (queue s) then [hd (queue s)] else [])"
    using rr_slice_queue [OF lv, of q] unfolding s'_def [symmetric] same .
  have 2: "sorted newly" "distinct newly"
    unfolding newly_def by (rule sorted_wrt_filter) simp_all
  have 3: "sorted (map (\<lambda>j. at_p (srt ! j)) newly)"
    unfolding newly_def srt_def by (rule sorted_arrivals_filter)
  have 4: "\<forall>j<length procs. visited s' ! j = (visited s ! j \<or> j \<in> set newly)"
  proof (intro allI impI)
    fix j assume j: "j < length procs"
    then have jl: "j < length srt" by (simp add: len)
    have "visited s' ! j = (visited s ! j \<or> (at_p (srt ! j) \<le> time s' \<and> 0 < remaining s' ! j))"
      using jl by (simp add: s'_def rr_slice_visited [OF lv])
    then show "visited s' ! j = (visited s ! j \<or> j \<in> set newly)"
      using jl keep [OF jl] by (auto simp: newly_def)
  qed
  show ?thesis
    using 1 2 3 4 unfolding newly_def s'_def srt_def js_sort_by_props(1) by blast
qed

lemma late_id_sorted:
  "js_sort_by at_p LATE_ID_PROCESSES =
     [\<lparr>id_p = 1, at_p = 0, bt = 5\<rparr>, \<lparr>id_p = 3, at_p = 1, bt = 2\<rparr>, \<lparr>id_p = 2, at_p = 2, bt = 2\<rparr>]"
  by (simp add: js_sort_by_def LATE_ID_PROCESSES_def)

lemma late_id_queue:
  "queue (rr_slice (js_sort_by at_p LATE_ID_PROCESSES) 4 (rr_init (js_sort_by at_p LATE_ID_PROCESSES)))
     = [1, 2, 0]"
  by code_simp

text \<open>
  C4, as the specification states it, does not hold: the order is not by ascending id. For
  the processes (id 1, arrival 0, burst 5), (id 2, arrival 2, burst 2), (id 3, arrival 1,
  burst 2) and quantum 4, the queue after the first slice holds the ids 3, 2, 1: the two
  arrivals in the order 3, 2 and then the process 1 that just ran.
\<close>

theorem arrivals_in_id_order_counterexample:
  "queue_ids (js_sort_by at_p LATE_ID_PROCESSES)
     (rr_slice (js_sort_by at_p LATE_ID_PROCESSES) 4 (rr_init (js_sort_by at_p LATE_ID_PROCESSES)))
   = [3, 2, 1]"
  unfolding queue_ids_def late_id_queue by (simp add: late_id_sorted)

theorem arrivals_enqueued_before_requeue_witness:
  "\<exists>newly.
     newly = filter (\<lambda>j. at_p (js_sort_by at_p LATE_ID_PROCESSES ! j)
                          \<le> time (rr_slice (js_sort_by at_p LATE_ID_PROCESSES) 4
                                   (rr_init (js_sort_by at_p LATE_ID_PROCESSES)))
                        \<and> \<not> visited (rr_init (js_sort_by at_p LATE_ID_PROCESSES)) ! j)
               [0..<length LATE_ID_PROCESSES] \<and>
     queue (rr_slice (js_sort_by at_p LATE_ID_PROCESSES) 4 (rr_init (js_sort_by at_p LATE_ID_PROCESSES))) =
       tl (queue (rr_init (js_sort_by at_p LATE_ID_PROCESSES))) @ newly @
       (if 0 < remaining (rr_slice (js_sort_by at_p LATE_ID_PROCESSES) 4
                  (rr_init (js_sort_by at_p LATE_ID_PROCESSES)))
                ! hd (queue (rr_init (js_sort_by at_p LATE_ID_PROCESSES)))
        then [hd (queue (rr_init (js_sort_by at_p LATE_ID_PROCESSES)))] else []) \<and>
     sorted newly \<and> distinct newly \<and>
     sorted (map (\<lambda>j. at_p (js_sort_by at_p LATE_ID_PROCESSES ! j)) newly) \<and>
     (\<forall>j<length LATE_ID_PROCESSES.
        visited (rr_slice (js_sort_by at_p LATE_ID_PROCESSES) 4
                  (rr_init (js_sort_by at_p LATE_ID_PROCESSES))) ! j
        = (visited (rr_init (js_sort_by at_p LATE_ID_PROCESSES)) ! j \<or> j \<in> set newly))"
proof -
  have pos: "\<forall>p\<in>set LATE_ID_PROCESSES. 0 < bt p"
    by (simp add: LATE_ID_PROCESSES_def)
  have reach: "rr_reach (js_sort_by at_p LATE_ID_PROCESSES) 4 (rr_init (js_sort_by at_p LATE_ID_PROCESSES))"
    by (rule reach_init)
  have ne: "queue (rr_init (js_sort_by at_p LATE_ID_PROCESSES)) \<noteq> []"
    by (simp add: late_id_sorted rr_init_fields)
  show ?thesis by (rule arrivals_enqueued_before_requeue [OF pos reach ne])
qed

section \<open>The quantum sweep\<close>

lemma maxBt_Max:
  assumes "processes \<noteq> []"
  shows "maxBt processes = Some (Max (bt ` set processes))"
proof -
  obtain p ps where ps: "processes = p # ps" using assms by (cases processes) auto
  have "fold max (map bt ps) (bt p) = Max (set (bt p # map bt ps))"
    by (rule Max.set_eq_fold [symmetric])
  then show ?thesis by (simp add: maxBt_def ps)
qed

lemma maxQ_Max:
  assumes "processes \<noteq> []"
  shows "maxQ processes = max 2 (Max (bt ` set processes) + 3)"
  by (simp add: maxQ_def maxBt_Max [OF assms])

lemma maxQ_ge_2: "2 \<le> maxQ processes"
  by (simp add: maxQ_def split: option.splits)

lemma set_qValues: "set (qValues processes) = {1 .. maxQ processes - 1}"
proof (intro set_eqI iffI)
  fix x assume "x \<in> set (qValues processes)"
  then show "x \<in> {1 .. maxQ processes - 1}" by (auto simp: qValues_def)
next
  fix x assume x: "x \<in> {1 .. maxQ processes - 1}"
  then have "nat (x - 1) < nat (maxQ processes - 1)" "int (nat (x - 1)) + 1 = x" by auto
  then have "x \<in> (\<lambda>i. int i + 1) ` {0..<nat (maxQ processes - 1)}"
    by (metis atLeastLessThan_iff image_eqI zero_le)
  then show "x \<in> set (qValues processes)" by (simp add: qValues_def)
qed

lemma qValues_ascending: "sorted (qValues processes)" "distinct (qValues processes)"
  by (simp_all add: qValues_def sorted_map distinct_map inj_on_def sorted_wrt_iff_nth_less)

lemma qValues_nonempty: "qValues processes \<noteq> []"
  using maxQ_ge_2 [of processes] by (simp add: qValues_def)

lemma hd_qValues: "hd (qValues processes) = 1"
proof -
  have "0 < nat (maxQ processes - 1)" using maxQ_ge_2 [of processes] by simp
  then have "[0..<nat (maxQ processes - 1)] = 0 # [1..<nat (maxQ processes - 1)]"
    by (simp add: upt_conv_Cons)
  then show ?thesis by (simp add: qValues_def)
qed

lemma rr_terminates:
  assumes "\<forall>p\<in>set procs. 0 < bt p" and "1 \<le> q"
  shows "\<exists>r. roundRobin procs q = Some r"
proof -
  have "\<forall>p\<in>set (js_sort_by at_p procs). 0 < bt p"
    using assms(1) by (simp add: js_sort_by_props)
  then have "rr_inv (js_sort_by at_p procs) (rr_init (js_sort_by at_p procs))"
    by (rule rr_init_inv)
  from rr_loop_inv [OF this rr_init_done assms(2)]
  show ?thesis by (auto simp: roundRobin_def)
qed

lemma sweep_total:
  assumes "\<forall>q\<in>set qs. \<exists>r. roundRobin processes q = Some r \<and> (\<exists>a. avgWt r = Fin a)"
  shows "\<exists>pts. sweep processes qs = Some pts \<and> map q_s pts = qs \<and> (\<forall>p\<in>set pts. \<exists>a. awt p = Fin a)"
  using assms
proof (induction qs)
  case Nil
  then show ?case by simp
next
  case (Cons q qs)
  obtain r a where r: "roundRobin processes q = Some r" "avgWt r = Fin a"
    using Cons.prems by auto
  obtain pts where pts: "sweep processes qs = Some pts" "map q_s pts = qs"
      "\<forall>p\<in>set pts. \<exists>a. awt p = Fin a"
    using Cons.IH Cons.prems by auto
  show ?case using r pts by simp
qed

lemma roundRobin_avgWt_finite:
  assumes "roundRobin processes q = Some r" "processes \<noteq> []"
  shows "\<exists>a. avgWt r = Fin a"
proof -
  obtain s where "r = rr_result (js_sort_by at_p processes) s"
    using assms(1) by (auto simp: roundRobin_def Let_def)
  moreover have "length (js_sort_by at_p processes) \<noteq> 0"
    using assms(2) by (simp add: js_sort_by_props)
  ultimately show ?thesis by (simp add: rr_result_def rr_summary_def Let_def js_div_def)
qed

lemma points_total:
  assumes "processes \<noteq> []" and "\<forall>p\<in>set processes. 0 < bt p"
  shows "\<exists>pts. points processes = Some pts \<and> map q_s pts = qValues processes \<and>
               (\<forall>p\<in>set pts. \<exists>a. awt p = Fin a)"
  unfolding points_def
proof (rule sweep_total, rule ballI)
  fix q assume "q \<in> set (qValues processes)"
  then have "1 \<le> q" by (simp add: set_qValues)
  from rr_terminates [OF assms(2) this]
  obtain r where r: "roundRobin processes q = Some r" by blast
  with roundRobin_avgWt_finite [OF r assms(1)]
  show "\<exists>r. roundRobin processes q = Some r \<and> (\<exists>a. avgWt r = Fin a)" by blast
qed

lemma fold_min_first:
  assumes "\<forall>p\<in>set (m0 # xs). \<exists>a. awt p = Fin a"
  shows "\<exists>ys zs. m0 # xs = ys @ fold (\<lambda>p m. if js_less (awt p) (awt m) then p else m) xs m0 # zs \<and>
           (\<forall>y\<in>set ys. fin_val (awt (fold (\<lambda>p m. if js_less (awt p) (awt m) then p else m) xs m0))
                           < fin_val (awt y)) \<and>
           (\<forall>z\<in>set zs. fin_val (awt (fold (\<lambda>p m. if js_less (awt p) (awt m) then p else m) xs m0))
                           \<le> fin_val (awt z))"
  using assms
proof (induction xs arbitrary: m0)
  case Nil
  have "[m0] = [] @ m0 # []" by simp
  then have "\<exists>ys zs. [m0] = ys @ m0 # zs \<and>
           (\<forall>y\<in>set ys. fin_val (awt m0) < fin_val (awt y)) \<and>
           (\<forall>z\<in>set zs. fin_val (awt m0) \<le> fin_val (awt z))"
    by (metis empty_iff list.set(1))
  then show ?case by simp
next
  case (Cons x xs)
  let ?f = "\<lambda>p m. if js_less (awt p) (awt m) then p else m"
  define m' where "m' = ?f x m0"
  define r where "r = fold ?f xs m'"
  obtain a b where ab: "awt m0 = Fin a" "awt x = Fin b" using Cons.prems by auto
  have m'_cases: "(m' = m0 \<and> fin_val (awt m0) \<le> fin_val (awt x)) \<or>
                  (m' = x \<and> fin_val (awt x) < fin_val (awt m0))"
    by (auto simp: m'_def ab)
  then have le: "fin_val (awt m') \<le> fin_val (awt m0)" "fin_val (awt m') \<le> fin_val (awt x)"
    by auto
  have "\<forall>p\<in>set (m' # xs). \<exists>a. awt p = Fin a"
    using Cons.prems m'_cases by auto
  from Cons.IH [OF this]
  obtain ys zs where d: "m' # xs = ys @ r # zs"
      "\<forall>y\<in>set ys. fin_val (awt r) < fin_val (awt y)"
      "\<forall>z\<in>set zs. fin_val (awt r) \<le> fin_val (awt z)"
    unfolding r_def by blast
  have fold_eq: "fold ?f (x # xs) m0 = r" by (simp add: r_def m'_def)
  have "\<exists>ys' zs'. m0 # x # xs = ys' @ r # zs' \<and>
           (\<forall>y\<in>set ys'. fin_val (awt r) < fin_val (awt y)) \<and>
           (\<forall>z\<in>set zs'. fin_val (awt r) \<le> fin_val (awt z))"
  proof (cases ys)
    case Nil
    then have rm: "r = m'" and zs: "zs = xs" using d(1) by simp_all
    from m'_cases show ?thesis
    proof
      assume h: "m' = m0 \<and> fin_val (awt m0) \<le> fin_val (awt x)"
      have "m0 # x # xs = [] @ r # (x # xs)" using h rm by simp
      moreover have "\<forall>z\<in>set (x # xs). fin_val (awt r) \<le> fin_val (awt z)"
        using h rm d(3) zs by simp
      ultimately show ?thesis by (metis empty_iff list.set(1))
    next
      assume h: "m' = x \<and> fin_val (awt x) < fin_val (awt m0)"
      have "m0 # x # xs = [m0] @ r # xs" using h rm by simp
      moreover have "\<forall>y\<in>set [m0]. fin_val (awt r) < fin_val (awt y)" using h rm by simp
      moreover have "\<forall>z\<in>set xs. fin_val (awt r) \<le> fin_val (awt z)" using d(3) zs by simp
      ultimately show ?thesis by blast
    qed
  next
    case (Cons y ys2)
    then have y: "y = m'" and xs: "xs = ys2 @ r # zs" using d(1) by simp_all
    have lt: "fin_val (awt r) < fin_val (awt m')" using d(2) Cons y by simp
    have "m0 # x # xs = (m0 # x # ys2) @ r # zs" using xs by simp
    moreover have "\<forall>y\<in>set (m0 # x # ys2). fin_val (awt r) < fin_val (awt y)"
      using d(2) Cons lt le by auto
    ultimately show ?thesis using d(3) by blast
  qed
  then show ?case unfolding fold_eq .
qed

text \<open>
  C3, as the code runs it. Without an explicit range the sweep analyses the quanta
  \<open>1, ..., max(2, maxBt + 3) - 1\<close>, each once and in ascending order: the array of quanta
  has the length \<open>maxQ - 1\<close>, so \<open>max(2, maxBt + 3)\<close> itself is not analysed.
\<close>

theorem sweep_default_range:
  assumes "processes \<noteq> []" and "\<forall>p\<in>set processes. 0 < bt p"
  shows "\<exists>pts. points processes = Some pts \<and>
           map q_s pts = qValues processes \<and>
           set (qValues processes) = {1 .. max 2 (Max (bt ` set processes) + 3) - 1} \<and>
           sorted (qValues processes) \<and> distinct (qValues processes)"
proof -
  obtain pts where "points processes = Some pts" "map q_s pts = qValues processes"
    using points_total [OF assms] by blast
  moreover have "set (qValues processes) = {1 .. max 2 (Max (bt ` set processes) + 3) - 1}"
    by (simp only: set_qValues maxQ_Max [OF assms(1)])
  ultimately show ?thesis using qValues_ascending [of processes] by blast
qed

lemma default_qValues:
  "maxBt DEFAULT_PROCESSES = Some 8 \<and> maxQ DEFAULT_PROCESSES = 11 \<and>
   qValues DEFAULT_PROCESSES = [1, 2, 3, 4, 5, 6, 7, 8, 9, 10]"
  by code_simp

theorem sweep_default_range_witness:
  "\<exists>pts. points DEFAULT_PROCESSES = Some pts \<and>
     map q_s pts = [1, 2, 3, 4, 5, 6, 7, 8, 9, 10] \<and>
     set (qValues DEFAULT_PROCESSES) = {1 .. max 2 (Max (bt ` set DEFAULT_PROCESSES) + 3) - 1}"
proof -
  have "DEFAULT_PROCESSES \<noteq> []" and "\<forall>p\<in>set DEFAULT_PROCESSES. 0 < bt p"
    by (simp_all add: DEFAULT_PROCESSES_def)
  from sweep_default_range [OF this] show ?thesis
    by (auto simp: default_qValues)
qed

text \<open>
  C3, as the specification states it, does not hold: for \<open>DEFAULT_PROCESSES\<close> the largest
  burst is 8 and \<open>max(2, 8 + 3)\<close> is 11, but the quanta analysed are 1 to 10.
\<close>

theorem sweep_default_range_counterexample:
  "maxBt DEFAULT_PROCESSES = Some 8 \<and> max 2 (8 + 3) = (11::int) \<and>
   qValues DEFAULT_PROCESSES = [1, 2, 3, 4, 5, 6, 7, 8, 9, 10] \<and>
   11 \<notin> set (qValues DEFAULT_PROCESSES)"
  using default_qValues by simp

text \<open>
  C8. For a non-empty process list with positive bursts the sweep returns its points, each
  with a finite average waiting time, and \<open>minAwtPoint\<close> is one of them: no point has a
  smaller average waiting time, and every point with the same average waiting time has a
  quantum at least as large.
\<close>

theorem optimal_quantum_first_minimum:
  assumes "processes \<noteq> []" and "\<forall>p\<in>set processes. 0 < bt p"
  shows "\<exists>pts m a. points processes = Some pts \<and> minAwtPoint pts = Some m \<and>
           m \<in> set pts \<and> awt m = Fin a \<and>
           (\<forall>p\<in>set pts. \<exists>b. awt p = Fin b \<and> a \<le> b) \<and>
           (\<forall>p\<in>set pts. awt p = awt m \<longrightarrow> q_s m \<le> q_s p)"
proof -
  let ?f = "\<lambda>p m. if js_less (awt p) (awt m) then p else m"
  obtain pts where pts: "points processes = Some pts" "map q_s pts = qValues processes"
      "\<forall>p\<in>set pts. \<exists>a. awt p = Fin a"
    using points_total [OF assms] by blast
  have "pts \<noteq> []" using pts(2) qValues_nonempty [of processes] by auto
  then obtain p0 ps where pp: "pts = p0 # ps" by (cases pts) auto
  define m where "m = fold ?f pts p0"
  have min: "minAwtPoint pts = Some m" by (simp add: minAwtPoint_def pp m_def)
  have "\<forall>p\<in>set (p0 # pts). \<exists>a. awt p = Fin a" using pts(3) pp by simp
  from fold_min_first [OF this]
  obtain ys zs where d: "p0 # pts = ys @ m # zs"
      "\<forall>y\<in>set ys. fin_val (awt m) < fin_val (awt y)"
      "\<forall>z\<in>set zs. fin_val (awt m) \<le> fin_val (awt z)"
    unfolding m_def by blast
  have srt: "sorted (map q_s pts)" using pts(2) qValues_ascending(1) [of processes] by simp
  have hd_least: "q_s p0 \<le> q_s p" if "p \<in> set pts" for p
    using srt that unfolding pp by auto
  have m_in: "m \<in> set pts"
  proof -
    have "m \<in> set (p0 # pts)" unfolding d(1) by simp
    then show ?thesis using pp by auto
  qed
  obtain a where a: "awt m = Fin a" using pts(3) m_in by blast
  have least: "fin_val (awt m) \<le> fin_val (awt p)" if "p \<in> set pts" for p
  proof -
    have "p \<in> set (ys @ m # zs)" using that d(1) by (metis list.set_intros(2))
    then show ?thesis using d(2,3) by auto
  qed
  have minimal: "\<forall>p\<in>set pts. \<exists>b. awt p = Fin b \<and> a \<le> b"
  proof
    fix p assume p: "p \<in> set pts"
    then obtain b where b: "awt p = Fin b" using pts(3) by blast
    then show "\<exists>b. awt p = Fin b \<and> a \<le> b" using least [OF p] a by simp
  qed
  have tie: "\<forall>p\<in>set pts. awt p = awt m \<longrightarrow> q_s m \<le> q_s p"
  proof (intro ballI impI)
    fix p assume p: "p \<in> set pts" and eq: "awt p = awt m"
    show "q_s m \<le> q_s p"
    proof (cases ys)
      case Nil
      then have "m = p0" using d(1) by simp
      then show ?thesis using hd_least [OF p] by simp
    next
      case (Cons y ys2)
      then have split: "pts = ys2 @ m # zs" and y: "y = p0" using d(1) by simp_all
      have "p \<notin> set ys2"
      proof
        assume "p \<in> set ys2"
        then have "fin_val (awt m) < fin_val (awt p)" using d(2) Cons by simp
        then show False using eq by simp
      qed
      then have "p = m \<or> p \<in> set zs" using p split by auto
      moreover have "\<forall>z\<in>set zs. q_s m \<le> q_s z"
        using srt unfolding split by (simp add: sorted_append)
      ultimately show ?thesis by auto
    qed
  qed
  show ?thesis using pts(1) min m_in a minimal tie by blast
qed

theorem optimal_quantum_first_minimum_witness:
  "\<exists>pts m a. points DEFAULT_PROCESSES = Some pts \<and> minAwtPoint pts = Some m \<and>
           m \<in> set pts \<and> awt m = Fin a \<and>
           (\<forall>p\<in>set pts. \<exists>b. awt p = Fin b \<and> a \<le> b) \<and>
           (\<forall>p\<in>set pts. awt p = awt m \<longrightarrow> q_s m \<le> q_s p)"
proof -
  have "DEFAULT_PROCESSES \<noteq> []" and "\<forall>p\<in>set DEFAULT_PROCESSES. 0 < bt p"
    by (simp_all add: DEFAULT_PROCESSES_def)
  then show ?thesis by (rule optimal_quantum_first_minimum)
qed

section \<open>Inputs that the specification wants rejected\<close>

lemma rr_step_stuck:
  assumes st: "rr_stuck srt s" and q: "q \<le> 0"
  shows "rr_stuck srt (rr_step srt q s)"
proof -
  define i where "i = hd (queue s)"
  define s' where "s' = rr_slice srt q s"
  have lv: "length (visited s) = length srt" and lr: "length (remaining s) = length srt"
    and ne: "queue s \<noteq> []"
    using st by (simp_all add: rr_stuck_def)
  have qs: "j \<in> set (queue s) \<Longrightarrow> j < length srt \<and> 0 < remaining s ! j" for j
    using st unfolding rr_stuck_def by blast
  have i: "i < length srt" "0 < remaining s ! i" using qs [of i] ne by (simp_all add: i_def)
  have rem': "remaining s' = (remaining s)[i := remaining s ! i - min (remaining s ! i) q]"
    by (simp add: s'_def i_def rr_slice_remaining)
  have rem_i: "0 < remaining s' ! i" using i q lr by (simp add: rem')
  have rem_other: "j \<noteq> i \<Longrightarrow> remaining s' ! j = remaining s ! j" for j
    by (simp add: rem')
  have q': "queue s' = tl (queue s) @
     filter (\<lambda>j. at_p (srt ! j) \<le> time s' \<and> \<not> visited s ! j \<and> 0 < remaining s' ! j) [0..<length srt] @
     (if 0 < remaining s' ! i then [i] else [])"
    unfolding s'_def i_def by (rule rr_slice_queue [OF lv])
  have 1: "queue s' \<noteq> []" unfolding q' using rem_i by simp
  have 2: "\<forall>j\<in>set (queue s'). j < length srt \<and> 0 < remaining s' ! j"
  proof
    fix j assume "j \<in> set (queue s')"
    then consider "j \<in> set (tl (queue s))" | "j < length srt" "0 < remaining s' ! j" | "j = i"
      unfolding q' by (auto split: if_splits)
    then show "j < length srt \<and> 0 < remaining s' ! j"
    proof cases
      case 1
      then have "j \<in> set (queue s)" using ne by (simp add: list.set_sel(2))
      then show ?thesis using qs [of j] rem_other [of j] rem_i by (cases "j = i") simp_all
    next
      case 2
      then show ?thesis by simp
    next
      case 3
      then show ?thesis using i(1) rem_i by simp
    qed
  qed
  have 3: "length (visited s') = length srt" by (simp add: s'_def rr_slice_visited [OF lv])
  have 4: "length (remaining s') = length srt" by (simp add: rem' lr)
  have "rr_stuck srt s'"
    unfolding rr_stuck_def using 1 2 3 4 by blast
  moreover have "fill_gap srt s' = s'" using 1 by (simp add: fill_gap_def)
  ultimately show ?thesis by (simp add: rr_step_def s'_def)
qed

lemma rr_loop_stuck:
  assumes "rr_loop srt q s = Some y"
  shows "q \<le> 0 \<longrightarrow> rr_stuck srt s \<longrightarrow> False"
proof (rule rr_loop.raw_induct [where P = "\<lambda>srt q s y. q \<le> 0 \<longrightarrow> rr_stuck srt s \<longrightarrow> False", OF _ assms])
  fix f :: "Proc list \<Rightarrow> int \<Rightarrow> rr_state \<Rightarrow> rr_state option"
  fix srt q s y
  assume IH: "\<And>srt q s y. f srt q s = Some y \<Longrightarrow> q \<le> 0 \<longrightarrow> rr_stuck srt s \<longrightarrow> False"
    and body: "(if queue s = [] then Some s else f srt q (rr_step srt q s)) = Some y"
  show "q \<le> 0 \<longrightarrow> rr_stuck srt s \<longrightarrow> False"
  proof (intro impI)
    assume q: "q \<le> 0" and st: "rr_stuck srt s"
    then have "queue s \<noteq> []" by (simp add: rr_stuck_def)
    then have "f srt q (rr_step srt q s) = Some y" using body by simp
    from IH [OF this] show False using q rr_step_stuck [OF st q] by blast
  qed
qed

lemma rr_init_stuck:
  assumes "srt \<noteq> []" and "\<forall>p\<in>set srt. 0 < bt p"
  shows "rr_stuck srt (rr_init srt)"
proof -
  obtain p ps where "srt = p # ps" using assms(1) by (cases srt) auto
  then have "0 \<in> set (queue (rr_init srt))" by (simp add: rr_init_fields)
  then have "queue (rr_init srt) \<noteq> []" by auto
  moreover have "0 < bt (srt ! j)" if "j < length srt" for j
    using assms(2) that by simp
  ultimately show ?thesis
    unfolding rr_stuck_def by (auto simp: rr_init_fields)
qed

lemma rr_quantum_below_1_diverges:
  assumes "procs \<noteq> []" and "\<forall>p\<in>set procs. 0 < bt p" and "q < 1"
  shows "roundRobin procs q = None"
proof (rule ccontr)
  assume "roundRobin procs q \<noteq> None"
  then obtain y where y: "rr_loop (js_sort_by at_p procs) q (rr_init (js_sort_by at_p procs)) = Some y"
    by (auto simp: roundRobin_def Let_def)
  have "js_sort_by at_p procs \<noteq> []"
    using assms(1) js_sort_by_props(1) [of at_p procs] by (metis length_0_conv)
  moreover have "\<forall>p\<in>set (js_sort_by at_p procs). 0 < bt p"
    using assms(2) by (simp add: js_sort_by_props)
  ultimately have "rr_stuck (js_sort_by at_p procs) (rr_init (js_sort_by at_p procs))"
    by (rule rr_init_stuck)
  then show False using rr_loop_stuck [OF y] assms(3) by simp
qed

text \<open>
  C2, as the code runs it. Neither function rejects an input: on the empty process list
  \<open>roundRobin\<close> returns normally for every quantum, also for a quantum below 1, and so does
  \<open>fcfsScheduler\<close>; the result has an empty timeline, no per-process row and
  \<open>totalTime\<close> 0.
\<close>

theorem empty_input_not_rejected:
  "(\<exists>r. roundRobin [] q = Some r \<and> gantt r = [] \<and> resultData r = [] \<and> totalTime r = 0) \<and>
   gantt (fcfsScheduler []) = [] \<and> resultData (fcfsScheduler []) = [] \<and>
   totalTime (fcfsScheduler []) = 0"
  by (simp add: roundRobin_Nil fcfsScheduler_Nil)

text \<open>
  C2, as the specification states it, does not hold: with the quantum 0 and the empty
  process list \<open>roundRobin\<close> returns a result, and so does \<open>fcfsScheduler\<close> on the empty list.
\<close>

theorem empty_input_not_rejected_counterexample:
  "roundRobin [] 0 = Some \<lparr>resultData = [], gantt = [], cs = 0, avgTat = NaN, avgWt = NaN,
     cpuUtil = ''0.00'', throughput = ''0.000'', totalTime = 0\<rparr> \<and>
   fcfsScheduler [] = \<lparr>resultData = [], gantt = [], cs = 0, avgTat = NaN, avgWt = NaN,
     cpuUtil = ''0.00'', throughput = ''0.000'', totalTime = 0\<rparr>"
  by (simp add: roundRobin_Nil fcfsScheduler_Nil)

section \<open>The store: what the two functions write\<close>

lemma frame_at_simps [simp]:
  "sorted_a (frame_at b) = b" "remaining_a (frame_at b) = b + 1"
  "completion_a (frame_at b) = b + 2" "firstResponse_a (frame_at b) = b + 3"
  "queue_a (frame_at b) = b + 4" "visited_a (frame_at b) = b + 5" "gantt_a (frame_at b) = b + 6"
  by (simp_all add: frame_at_def)

lemma h_sorted_copy_shape:
  "\<exists>c. h_sorted_copy procs h = (length h, h @ [c])"
  by (simp add: h_sorted_copy_def alloc_def put_def)

lemma h_init_shape:
  "\<exists>cs t0. length cs = 7 \<and> h_init procs h = (frame_at (length h), h @ cs, t0)"
proof -
  obtain c where c: "h_sorted_copy procs h = (length h, h @ [c])"
    using h_sorted_copy_shape by blast
  show ?thesis
    unfolding h_init_def c
    by (simp add: alloc_def put_def Let_def frame_at_def list_update_append split: prod.splits)
qed

lemma take_put: "b \<le> a \<Longrightarrow> take b (put a c h) = take b h"
  by (simp add: put_def)

lemma length_put [simp]: "length (put a c h) = length h"
  by (simp add: put_def)

lemma save_frame:
  "take (Suc b) (save (frame_at b) s h) = take (Suc b) h" "length (save (frame_at b) s h) = length h"
  by (simp_all add: save_def take_put)

lemma h_loop_frame:
  assumes "h_loop fr q ht = Some ht'"
  shows "fr = frame_at b \<longrightarrow>
         take (Suc b) (fst ht') = take (Suc b) (fst ht) \<and> length (fst ht') = length (fst ht)"
proof (rule h_loop.raw_induct [where P = "\<lambda>fr q ht ht'. fr = frame_at b \<longrightarrow>
         take (Suc b) (fst ht') = take (Suc b) (fst ht) \<and> length (fst ht') = length (fst ht)", OF _ assms])
  fix f :: "frame \<Rightarrow> int \<Rightarrow> store \<times> int \<Rightarrow> (store \<times> int) option"
  fix fr q ht ht'
  assume IH: "\<And>fr q ht ht'. f fr q ht = Some ht' \<Longrightarrow> fr = frame_at b \<longrightarrow>
         take (Suc b) (fst ht') = take (Suc b) (fst ht) \<and> length (fst ht') = length (fst ht)"
    and body: "(if idxs_of (fst ht ! queue_a fr) = [] then Some ht else f fr q (h_step fr q ht)) = Some ht'"
  show "fr = frame_at b \<longrightarrow>
         take (Suc b) (fst ht') = take (Suc b) (fst ht) \<and> length (fst ht') = length (fst ht)"
  proof
    assume fr: "fr = frame_at b"
    show "take (Suc b) (fst ht') = take (Suc b) (fst ht) \<and> length (fst ht') = length (fst ht)"
    proof (cases "idxs_of (fst ht ! queue_a fr) = []")
      case True
      then show ?thesis using body by simp
    next
      case False
      then have "f fr q (h_step fr q ht) = Some ht'" using body by simp
      from IH [OF this] fr
      have "take (Suc b) (fst ht') = take (Suc b) (fst (h_step fr q ht)) \<and>
            length (fst ht') = length (fst (h_step fr q ht))" by simp
      moreover have "take (Suc b) (fst (h_step fr q ht)) = take (Suc b) (fst ht)"
                    "length (fst (h_step fr q ht)) = length (fst ht)"
        unfolding fr by (simp_all add: h_step_def Let_def save_frame split: prod.splits)
      ultimately show ?thesis by simp
    qed
  qed
qed

lemma h_result_shape: "\<exists>cs. snd (h_result fr h) = h @ cs"
  by (simp add: h_result_def alloc_def put_def Let_def list_update_append split: prod.splits)

lemma take_Suc_take:
  assumes "take (Suc b) h' = take (Suc b) h"
  shows "take b h' = take b h"
proof -
  have "take b (take (Suc b) h') = take b (take (Suc b) h)" using assms by simp
  then show ?thesis by (simp add: min_def)
qed

lemma h_roundRobin_frame:
  assumes "h_roundRobin procs q h = Some (r, h')"
  shows "take (length h) h' = h"
proof -
  obtain cs t0 where init: "h_init procs h = (frame_at (length h), h @ cs, t0)"
    using h_init_shape by blast
  obtain h2 t where loop: "h_loop (frame_at (length h)) q (h @ cs, t0) = Some (h2, t)"
    and res: "h_result (frame_at (length h)) h2 = (r, h')"
    using assms unfolding h_roundRobin_def init by (auto split: option.splits)
  from h_loop_frame [OF loop, of "length h"]
  have "take (Suc (length h)) h2 = take (Suc (length h)) (h @ cs)" by simp
  then have "take (length h) h2 = take (length h) (h @ cs)" by (rule take_Suc_take)
  then have h2: "take (length h) h2 = h" by simp
  have "length (take (length h) h2) = length h" using h2 by simp
  then have len: "length h \<le> length h2" by simp
  obtain cs' where "h' = h2 @ cs'" using h_result_shape [of "frame_at (length h)" h2] res by auto
  then show ?thesis using h2 len by simp
qed

section \<open>The store: the same results as the functions on values\<close>

lemma procs_at_take:
  assumes "take k h' = take k h" and "a < k" and "\<forall>r\<in>set (refs_of (h ! a)). r < k"
  shows "procs_at h' a = procs_at h a"
proof -
  have nth: "h' ! r = h ! r" if "r < k" for r
  proof -
    have "take k h' ! r = take k h ! r" using assms(1) by simp
    then show ?thesis using that by simp
  qed
  have "refs_of (h' ! a) = refs_of (h ! a)" using nth [OF assms(2)] by simp
  moreover have "map (\<lambda>r. proc_of (h' ! r)) (refs_of (h ! a)) = map (\<lambda>r. proc_of (h ! r)) (refs_of (h ! a))"
    using assms(3) by (intro map_cong refl) (simp add: nth)
  ultimately show ?thesis by (simp add: procs_at_def)
qed

lemma insort_key_cong_set:
  assumes "f x = g x" and "\<forall>y\<in>set ys. f y = g y"
  shows "insort_key f x ys = insort_key g x ys"
  using assms by (induction ys) simp_all

lemma sort_key_cong_set:
  assumes "\<forall>x\<in>set xs. f x = g x"
  shows "sort_key f xs = sort_key g xs"
  using assms
proof (induction xs)
  case Nil
  then show ?case by simp
next
  case (Cons x xs)
  then have "sort_key f xs = sort_key g xs" by simp
  moreover have "insort_key f x (sort_key g xs) = insort_key g x (sort_key g xs)"
    using Cons.prems by (intro insort_key_cong_set) simp_all
  ultimately show ?case by simp
qed

lemma map_insort_key:
  "map g (insort_key (\<lambda>x. f (g x)) x xs) = insort_key f (g x) (map g xs)"
  by (induction xs) simp_all

lemma map_sort_key:
  "map g (sort_key (\<lambda>x. f (g x)) xs) = sort_key f (map g xs)"
  by (induction xs) (simp_all add: map_insort_key)

lemma h_sorted_copy_eq:
  assumes "caller_store h procs"
  shows "h_sorted_copy procs h =
           (length h, h @ [RefArr (js_sort_by (\<lambda>r. at_p (proc_of (h ! r))) (refs_of (h ! procs)))])"
proof -
  have p: "procs < length h" and r: "\<forall>r\<in>set (refs_of (h ! procs)). r < length h"
    using assms by (simp_all add: caller_store_def)
  have "sort_key (\<lambda>r. at_p (proc_of ((h @ [RefArr (refs_of (h ! procs))]) ! r))) (refs_of (h ! procs))
        = sort_key (\<lambda>r. at_p (proc_of (h ! r))) (refs_of (h ! procs))"
    using r by (intro sort_key_cong_set) (simp add: nth_append)
  then show ?thesis
    using p by (simp add: h_sorted_copy_def alloc_def put_def js_sort_by_def nth_append)
qed

lemma procs_at_sorted_copy:
  assumes "caller_store h procs"
  shows "procs_at (h @ RefArr (js_sort_by (\<lambda>r. at_p (proc_of (h ! r))) (refs_of (h ! procs))) # rest) (length h)
         = js_sort_by at_p (procs_at h procs)"
proof -
  let ?R = "js_sort_by (\<lambda>r. at_p (proc_of (h ! r))) (refs_of (h ! procs))"
  have r: "\<forall>r\<in>set ?R. r < length h"
    using assms by (simp add: caller_store_def js_sort_by_props)
  have "procs_at (h @ RefArr ?R # rest) (length h) = map (\<lambda>r. proc_of ((h @ RefArr ?R # rest) ! r)) ?R"
    by (simp add: procs_at_def)
  also have "\<dots> = map (\<lambda>r. proc_of (h ! r)) ?R"
    using r by (intro map_cong refl) (simp add: nth_append)
  also have "\<dots> = js_sort_by at_p (map (\<lambda>r. proc_of (h ! r)) (refs_of (h ! procs)))"
    unfolding js_sort_by_def by (rule map_sort_key)
  finally show ?thesis by (simp add: procs_at_def)
qed

lemma h_init_eq:
  assumes "caller_store h procs"
  shows "\<exists>h1 t0. h_init procs h = (frame_at (length h), h1, t0) \<and> frame_ok (length h) h1 \<and>
           procs_at h1 (length h) = js_sort_by at_p (procs_at h procs) \<and>
           load (frame_at (length h)) h1 t0 = rr_init (js_sort_by at_p (procs_at h procs))"
proof -
  define R where "R = js_sort_by (\<lambda>r. at_p (proc_of (h ! r))) (refs_of (h ! procs))"
  define srt where "srt = js_sort_by at_p (procs_at h procs)"
  define t0 where "t0 = (case srt of [] \<Rightarrow> 0 | p # _ \<Rightarrow> at_p p)"
  define qv where "qv = enqueue_initial srt t0 ([], replicate (length srt) False)"
  define h1 where "h1 = h @ [RefArr R, NumArr (map bt srt), NumArr (replicate (length srt) 0),
      NumArr (replicate (length srt) (- 1)), IdxArr (fst qv), BoolArr (snd qv), SegArr []]"
  have copy: "h_sorted_copy procs h = (length h, h @ [RefArr R])"
    unfolding R_def by (rule h_sorted_copy_eq [OF assms])
  have srt1: "procs_at (h @ [RefArr R]) (length h) = srt"
    unfolding R_def srt_def by (rule procs_at_sorted_copy [OF assms])
  have init: "h_init procs h = (frame_at (length h), h1, t0)"
    unfolding h_init_def copy
    by (simp add: srt1 alloc_def put_def Let_def frame_at_def list_update_append nth_append
        h1_def t0_def [symmetric] qv_def [symmetric] split: prod.splits)
  have refs: "\<forall>r\<in>set R. r < length h"
    using assms by (simp add: R_def caller_store_def js_sort_by_props)
  have ok: "frame_ok (length h) h1"
    using refs by (simp add: frame_ok_def h1_def)
  have srt2: "procs_at h1 (length h) = srt"
    unfolding h1_def R_def srt_def by (rule procs_at_sorted_copy [OF assms])
  have "load (frame_at (length h)) h1 t0 = rr_init srt"
    by (simp add: load_def h1_def nth_append rr_init_def Let_def t0_def [symmetric] qv_def [symmetric]
        split: prod.splits)
  then show ?thesis using init ok srt2 unfolding srt_def by blast
qed

lemma load_save:
  assumes "b + 7 \<le> length h"
  shows "load (frame_at b) (save (frame_at b) s h) (time s) = s"
  using assms by (simp add: load_def save_def put_def)

lemma queue_load: "queue (load fr h t) = idxs_of (h ! queue_a fr)"
  by (simp add: load_def)

lemma time_load: "time (load fr h t) = t"
  by (simp add: load_def)

lemma procs_at_save:
  assumes "frame_ok b h"
  shows "procs_at (save (frame_at b) s h) b = procs_at h b"
proof (rule procs_at_take)
  show "take (Suc b) (save (frame_at b) s h) = take (Suc b) h" by (rule save_frame(1))
  show "b < Suc b" by simp
  show "\<forall>r\<in>set (refs_of (h ! b)). r < Suc b" using assms by (auto simp: frame_ok_def)
qed

lemma frame_ok_save:
  assumes "frame_ok b h"
  shows "frame_ok b (save (frame_at b) s h)"
proof -
  have "take (Suc b) (save (frame_at b) s h) ! b = take (Suc b) h ! b"
    by (simp only: save_frame(1))
  then have "save (frame_at b) s h ! b = h ! b" by simp
  then show ?thesis using assms by (simp add: frame_ok_def save_frame(2))
qed

lemma h_step_eq:
  "h_step (frame_at b) q (h, t) =
     (save (frame_at b) (rr_step (procs_at h b) q (load (frame_at b) h t)) h,
      time (rr_step (procs_at h b) q (load (frame_at b) h t)))"
  by (simp add: h_step_def Let_def)

lemma h_loop_forward:
  assumes "h_loop fr q ht = Some ht'"
  shows "fr = frame_at b \<longrightarrow> frame_ok b (fst ht) \<longrightarrow>
           rr_loop (procs_at (fst ht) b) q (load fr (fst ht) (snd ht)) = Some (load fr (fst ht') (snd ht')) \<and>
           frame_ok b (fst ht') \<and> procs_at (fst ht') b = procs_at (fst ht) b"
proof (rule h_loop.raw_induct [where P = "\<lambda>fr q ht ht'. fr = frame_at b \<longrightarrow> frame_ok b (fst ht) \<longrightarrow>
           rr_loop (procs_at (fst ht) b) q (load fr (fst ht) (snd ht)) = Some (load fr (fst ht') (snd ht')) \<and>
           frame_ok b (fst ht') \<and> procs_at (fst ht') b = procs_at (fst ht) b", OF _ assms])
  fix f :: "frame \<Rightarrow> int \<Rightarrow> store \<times> int \<Rightarrow> (store \<times> int) option"
  fix fr q ht ht'
  assume IH: "\<And>fr q ht ht'. f fr q ht = Some ht' \<Longrightarrow> fr = frame_at b \<longrightarrow> frame_ok b (fst ht) \<longrightarrow>
           rr_loop (procs_at (fst ht) b) q (load fr (fst ht) (snd ht)) = Some (load fr (fst ht') (snd ht')) \<and>
           frame_ok b (fst ht') \<and> procs_at (fst ht') b = procs_at (fst ht) b"
    and body: "(if idxs_of (fst ht ! queue_a fr) = [] then Some ht else f fr q (h_step fr q ht)) = Some ht'"
  show "fr = frame_at b \<longrightarrow> frame_ok b (fst ht) \<longrightarrow>
           rr_loop (procs_at (fst ht) b) q (load fr (fst ht) (snd ht)) = Some (load fr (fst ht') (snd ht')) \<and>
           frame_ok b (fst ht') \<and> procs_at (fst ht') b = procs_at (fst ht) b"
  proof (intro impI)
    assume fr: "fr = frame_at b" and ok: "frame_ok b (fst ht)"
    obtain h t where ht: "ht = (h, t)" by (cases ht)
    show "rr_loop (procs_at (fst ht) b) q (load fr (fst ht) (snd ht)) = Some (load fr (fst ht') (snd ht')) \<and>
           frame_ok b (fst ht') \<and> procs_at (fst ht') b = procs_at (fst ht) b"
    proof (cases "idxs_of (fst ht ! queue_a fr) = []")
      case True
      then have "ht' = ht" using body by simp
      moreover have "rr_loop (procs_at h b) q (load fr h t) = Some (load fr h t)"
        using True ht by (subst rr_loop.simps) (simp add: queue_load)
      ultimately show ?thesis using ok ht by simp
    next
      case False
      define s1 where "s1 = rr_step (procs_at h b) q (load fr h t)"
      have step: "h_step fr q ht = (save fr s1 h, time s1)"
        unfolding ht fr s1_def by (rule h_step_eq)
      have "f fr q (save fr s1 h, time s1) = Some ht'" using False body step by simp
      from IH [OF this] fr frame_ok_save [OF ok [unfolded ht fst_conv], of s1]
      have 1: "rr_loop (procs_at (save fr s1 h) b) q (load fr (save fr s1 h) (time s1))
                 = Some (load fr (fst ht') (snd ht'))"
        and 2: "frame_ok b (fst ht')" and 3: "procs_at (fst ht') b = procs_at (save fr s1 h) b"
        by simp_all
      have pa: "procs_at (save fr s1 h) b = procs_at h b"
        unfolding fr using ok ht by (simp add: procs_at_save)
      have ld: "load fr (save fr s1 h) (time s1) = s1"
        unfolding fr using ok ht by (simp add: load_save frame_ok_def)
      have "rr_loop (procs_at h b) q (load fr h t) = rr_loop (procs_at h b) q s1"
        using False ht by (subst rr_loop.simps) (simp add: queue_load s1_def)
      then show ?thesis using 1 2 3 pa ld ht by simp
    qed
  qed
qed

lemma h_loop_backward:
  assumes "rr_loop srt q s = Some s'"
  shows "\<forall>h t. frame_ok b h \<longrightarrow> procs_at h b = srt \<longrightarrow> load (frame_at b) h t = s \<longrightarrow>
           (\<exists>h'. h_loop (frame_at b) q (h, t) = Some (h', time s'))"
proof (rule rr_loop.raw_induct [where P = "\<lambda>srt q s s'. \<forall>h t. frame_ok b h \<longrightarrow> procs_at h b = srt \<longrightarrow>
           load (frame_at b) h t = s \<longrightarrow> (\<exists>h'. h_loop (frame_at b) q (h, t) = Some (h', time s'))", OF _ assms])
  fix f :: "Proc list \<Rightarrow> int \<Rightarrow> rr_state \<Rightarrow> rr_state option"
  fix srt q s s'
  assume IH: "\<And>srt q s s'. f srt q s = Some s' \<Longrightarrow> \<forall>h t. frame_ok b h \<longrightarrow> procs_at h b = srt \<longrightarrow>
           load (frame_at b) h t = s \<longrightarrow> (\<exists>h'. h_loop (frame_at b) q (h, t) = Some (h', time s'))"
    and body: "(if queue s = [] then Some s else f srt q (rr_step srt q s)) = Some s'"
  show "\<forall>h t. frame_ok b h \<longrightarrow> procs_at h b = srt \<longrightarrow> load (frame_at b) h t = s \<longrightarrow>
           (\<exists>h'. h_loop (frame_at b) q (h, t) = Some (h', time s'))"
  proof (intro allI impI)
    fix h t
    assume ok: "frame_ok b h" and pa: "procs_at h b = srt" and ld: "load (frame_at b) h t = s"
    have qs: "idxs_of (h ! queue_a (frame_at b)) = queue s"
      using ld queue_load [of "frame_at b" h t] by simp
    show "\<exists>h'. h_loop (frame_at b) q (h, t) = Some (h', time s')"
    proof (cases "queue s = []")
      case True
      then have "s' = s" using body by simp
      then have "time s' = t" using ld time_load [of "frame_at b" h t] by simp
      then show ?thesis using True qs by (subst h_loop.simps) simp
    next
      case False
      define s1 where "s1 = rr_step srt q s"
      have "f srt q s1 = Some s'" using False body by (simp add: s1_def)
      from IH [OF this]
      have "frame_ok b (save (frame_at b) s1 h) \<longrightarrow> procs_at (save (frame_at b) s1 h) b = srt \<longrightarrow>
            load (frame_at b) (save (frame_at b) s1 h) (time s1) = s1 \<longrightarrow>
            (\<exists>h'. h_loop (frame_at b) q (save (frame_at b) s1 h, time s1) = Some (h', time s'))"
        by blast
      then obtain h' where h': "h_loop (frame_at b) q (save (frame_at b) s1 h, time s1) = Some (h', time s')"
        using frame_ok_save [OF ok] procs_at_save [OF ok] pa load_save ok
        by (auto simp: frame_ok_def)
      have "h_step (frame_at b) q (h, t) = (save (frame_at b) s1 h, time s1)"
        by (simp add: h_step_eq pa ld s1_def)
      then have "h_loop (frame_at b) q (h, t) = h_loop (frame_at b) q (save (frame_at b) s1 h, time s1)"
        using False qs by (subst h_loop.simps) simp
      then show ?thesis using h' by simp
    qed
  qed
qed

lemma h_result_refines:
  assumes "frame_ok b h"
  shows "fst (h_result (frame_at b) h) = rr_result (procs_at h b) (load (frame_at b) h t)"
proof -
  have "b + 7 \<le> length h" using assms by (simp add: frame_ok_def)
  then show ?thesis
    by (simp add: h_result_def rr_result_def load_def alloc_def put_def Let_def nth_append
        split: prod.splits)
qed

lemma h_roundRobin_refines:
  assumes "caller_store h procs"
  shows "map_option fst (h_roundRobin procs q h) = roundRobin (procs_at h procs) q"
proof -
  define b where "b = length h"
  define srt where "srt = js_sort_by at_p (procs_at h procs)"
  obtain h1 t0 where init: "h_init procs h = (frame_at b, h1, t0)" and ok: "frame_ok b h1"
      and pa: "procs_at h1 b = srt" and ld: "load (frame_at b) h1 t0 = rr_init srt"
    using h_init_eq [OF assms] unfolding b_def srt_def by blast
  show ?thesis
  proof (cases "h_loop (frame_at b) q (h1, t0)")
    case None
    have "rr_loop srt q (rr_init srt) = None"
    proof (rule ccontr)
      assume "rr_loop srt q (rr_init srt) \<noteq> None"
      then obtain s' where "rr_loop srt q (rr_init srt) = Some s'" by auto
      from h_loop_backward [OF this, of b] ok pa ld
      obtain h' where "h_loop (frame_at b) q (h1, t0) = Some (h', time s')" by blast
      then show False using None by simp
    qed
    then show ?thesis
      using None init by (simp add: h_roundRobin_def roundRobin_def srt_def)
  next
    case (Some ht')
    obtain h2 t where ht': "ht' = (h2, t)" by (cases ht')
    from h_loop_forward [OF Some, of b] ok
    have loop: "rr_loop srt q (rr_init srt) = Some (load (frame_at b) h2 t)"
      and ok2: "frame_ok b h2" and pa2: "procs_at h2 b = srt"
      using pa ld ht' by simp_all
    have "fst (h_result (frame_at b) h2) = rr_result srt (load (frame_at b) h2 t)"
      using h_result_refines [OF ok2, of t] pa2 by simp
    then show ?thesis
      using Some ht' init loop by (simp add: h_roundRobin_def roundRobin_def srt_def)
  qed
qed

lemma h_fcfs_fold:
  assumes "g < length h" and "h ! g = SegArr gs"
  shows "fold (h_fcfs_visit g) ps (t, h)
         = (fst (fold fcfs_visit ps (t, gs)), h[g := SegArr (snd (fold fcfs_visit ps (t, gs)))])"
  using assms
proof (induction ps arbitrary: t gs h)
  case Nil
  have "h[g := SegArr gs] = h" using Nil by (metis list_update_id)
  then show ?case by simp
next
  case (Cons p ps)
  obtain t' x where v: "fcfs_visit p (t, gs) = (t', x)" by (cases "fcfs_visit p (t, gs)")
  have "fold (h_fcfs_visit g) (p # ps) (t, h)
        = fold (h_fcfs_visit g) ps (t', h[g := SegArr x])"
    using Cons.prems v by (simp add: h_fcfs_visit_def put_def)
  also have "\<dots> = (fst (fold fcfs_visit ps (t', x)),
                   h[g := SegArr x, g := SegArr (snd (fold fcfs_visit ps (t', x)))])"
    using Cons.prems by (intro Cons.IH) simp_all
  finally show ?case using v by simp
qed

lemma h_fcfsScheduler_shape:
  "\<exists>c1 c2 c3. snd (h_fcfsScheduler procs h) = h @ [c1, c2, c3]"
proof -
  obtain c where c: "h_sorted_copy procs h = (length h, h @ [c])"
    using h_sorted_copy_shape by blast
  have "fold (h_fcfs_visit (Suc (length h))) ps (0, h @ [c, SegArr []])
        = (fst (fold fcfs_visit ps (0, [])),
           (h @ [c, SegArr []])[Suc (length h) := SegArr (snd (fold fcfs_visit ps (0, [])))])" for ps
    by (rule h_fcfs_fold) (simp_all add: nth_append)
  then show ?thesis
    unfolding h_fcfsScheduler_def c
    by (simp add: alloc_def put_def Let_def list_update_append split: prod.splits)
qed

lemma h_fcfsScheduler_frame: "take (length h) (snd (h_fcfsScheduler procs h)) = h"
proof -
  obtain c1 c2 c3 where "snd (h_fcfsScheduler procs h) = h @ [c1, c2, c3]"
    using h_fcfsScheduler_shape by blast
  then show ?thesis by simp
qed

lemma procs_at_append:
  assumes "caller_store h procs"
  shows "procs_at (h @ rest) procs = procs_at h procs"
proof (rule procs_at_take)
  show "take (length h) (h @ rest) = take (length h) h" by simp
  show "procs < length h" using assms by (simp add: caller_store_def)
  show "\<forall>r\<in>set (refs_of (h ! procs)). r < length h" using assms by (simp add: caller_store_def)
qed

lemma h_fcfsScheduler_refines:
  assumes "caller_store h procs"
  shows "fst (h_fcfsScheduler procs h) = fcfsScheduler (procs_at h procs)"
proof -
  define R where "R = js_sort_by (\<lambda>r. at_p (proc_of (h ! r))) (refs_of (h ! procs))"
  define srt where "srt = js_sort_by at_p (procs_at h procs)"
  define G where "G = fcfs_gantt srt"
  define rows where "rows = js_sort_by id_p (fcfs_rows srt G)"
  have copy: "h_sorted_copy procs h = (length h, h @ [RefArr R])"
    unfolding R_def by (rule h_sorted_copy_eq [OF assms])
  have srt2: "procs_at (h @ [RefArr R, SegArr []]) (length h) = srt"
    unfolding R_def srt_def by (rule procs_at_sorted_copy [OF assms])
  have srt3: "procs_at (h @ [RefArr R, SegArr G]) (length h) = srt"
    unfolding R_def srt_def by (rule procs_at_sorted_copy [OF assms])
  have fold: "fold (h_fcfs_visit (Suc (length h))) srt (0, h @ [RefArr R, SegArr []])
        = (fst (fold fcfs_visit srt (0, [])), h @ [RefArr R, SegArr G])"
  proof -
    have "fold (h_fcfs_visit (Suc (length h))) srt (0, h @ [RefArr R, SegArr []])
        = (fst (fold fcfs_visit srt (0, [])),
           (h @ [RefArr R, SegArr []])[Suc (length h) := SegArr (snd (fold fcfs_visit srt (0, [])))])"
      by (rule h_fcfs_fold) (simp_all add: nth_append)
    then show ?thesis by (simp add: list_update_append G_def fcfs_gantt_def)
  qed
  have len: "length R = length srt"
    by (simp add: R_def srt_def js_sort_by_props procs_at_def)
  have same: "procs_at (h @ [RefArr R, SegArr G, RowArr rows]) procs = procs_at h procs"
    by (rule procs_at_append [OF assms])
  have "fst (h_fcfsScheduler procs h) = fcfs_result (procs_at h procs) (length srt) G rows"
    unfolding h_fcfsScheduler_def copy
    by (simp add: alloc_def put_def Let_def srt2 fold srt3 nth_append list_update_append
        rows_def [symmetric] same len)
  then show ?thesis
    by (simp add: fcfsScheduler_def Let_def srt_def G_def rows_def)
qed

text \<open>
  C9. Let the caller's store hold the array of the processes and the \<open>Proc\<close> objects it
  refers to. Then \<open>roundRobin\<close> and \<open>fcfsScheduler\<close>, run on the store, compute what the
  functions on values compute from the caller's processes, and when they return every cell
  that was in the store at the call is as it was: the array of the processes, each \<open>Proc\<close>
  object in it, and so the list of processes read back from the store.
\<close>

theorem inputs_not_mutated:
  assumes "caller_store h procs"
  shows "map_option fst (h_roundRobin procs q h) = roundRobin (procs_at h procs) q \<and>
         fst (h_fcfsScheduler procs h) = fcfsScheduler (procs_at h procs) \<and>
         (\<forall>r h'. h_roundRobin procs q h = Some (r, h') \<longrightarrow>
            take (length h) h' = h \<and> h' ! procs = h ! procs \<and>
            (\<forall>a\<in>set (refs_of (h ! procs)). h' ! a = h ! a) \<and>
            procs_at h' procs = procs_at h procs) \<and>
         (\<forall>r h'. h_fcfsScheduler procs h = (r, h') \<longrightarrow>
            take (length h) h' = h \<and> h' ! procs = h ! procs \<and>
            (\<forall>a\<in>set (refs_of (h ! procs)). h' ! a = h ! a) \<and>
            procs_at h' procs = procs_at h procs)"
proof -
  have p: "procs < length h" and refs: "\<forall>a\<in>set (refs_of (h ! procs)). a < length h"
    using assms by (simp_all add: caller_store_def)
  have kept: "h' ! procs = h ! procs \<and> (\<forall>a\<in>set (refs_of (h ! procs)). h' ! a = h ! a) \<and>
              procs_at h' procs = procs_at h procs"
    if t: "take (length h) h' = h" for h'
  proof -
    have nth: "h' ! a = h ! a" if "a < length h" for a
    proof -
      have "take (length h) h' ! a = h ! a" using t by simp
      then show ?thesis using that by simp
    qed
    have "procs_at h' procs = procs_at h procs"
      using t p refs by (intro procs_at_take [where k = "length h"]) simp_all
    then show ?thesis using nth p refs by simp
  qed
  have rr: "\<forall>r h'. h_roundRobin procs q h = Some (r, h') \<longrightarrow>
            take (length h) h' = h \<and> h' ! procs = h ! procs \<and>
            (\<forall>a\<in>set (refs_of (h ! procs)). h' ! a = h ! a) \<and>
            procs_at h' procs = procs_at h procs"
    using h_roundRobin_frame kept by blast
  have "take (length h) (snd (h_fcfsScheduler procs h)) = h"
    by (rule h_fcfsScheduler_frame)
  then have ff: "\<forall>r h'. h_fcfsScheduler procs h = (r, h') \<longrightarrow>
            take (length h) h' = h \<and> h' ! procs = h ! procs \<and>
            (\<forall>a\<in>set (refs_of (h ! procs)). h' ! a = h ! a) \<and>
            procs_at h' procs = procs_at h procs"
    using kept by (metis snd_conv)
  show ?thesis
    using h_roundRobin_refines [OF assms] h_fcfsScheduler_refines [OF assms] rr ff by blast
qed

lemma default_store_ok:
  "caller_store DEFAULT_STORE 4" "procs_at DEFAULT_STORE 4 = DEFAULT_PROCESSES"
  by (simp_all add: caller_store_def DEFAULT_STORE_def DEFAULT_PROCESSES_def procs_at_def)

theorem inputs_not_mutated_witness:
  "(\<exists>r h'. h_roundRobin 4 4 DEFAULT_STORE = Some (r, h') \<and> roundRobin DEFAULT_PROCESSES 4 = Some r \<and>
      take (length DEFAULT_STORE) h' = DEFAULT_STORE \<and> procs_at h' 4 = DEFAULT_PROCESSES) \<and>
   fst (h_fcfsScheduler 4 DEFAULT_STORE) = fcfsScheduler DEFAULT_PROCESSES \<and>
   take (length DEFAULT_STORE) (snd (h_fcfsScheduler 4 DEFAULT_STORE)) = DEFAULT_STORE"
proof -
  note main = inputs_not_mutated [OF default_store_ok(1), of 4, unfolded default_store_ok(2)]
  have "\<forall>p\<in>set DEFAULT_PROCESSES. 0 < bt p" and "(1::int) \<le> 4"
    by (simp_all add: DEFAULT_PROCESSES_def)
  then obtain r where r: "roundRobin DEFAULT_PROCESSES 4 = Some r"
    using rr_terminates by blast
  then obtain h' where h': "h_roundRobin 4 4 DEFAULT_STORE = Some (r, h')"
    using main by (cases "h_roundRobin 4 4 DEFAULT_STORE") auto
  have "take (length DEFAULT_STORE) h' = DEFAULT_STORE \<and> procs_at h' 4 = DEFAULT_PROCESSES"
    using main h' by blast
  moreover have "take (length DEFAULT_STORE) (snd (h_fcfsScheduler 4 DEFAULT_STORE)) = DEFAULT_STORE"
    using main by (metis prod.collapse)
  ultimately show ?thesis using main r h' by blast
qed

end
